theory Spec2Isabelle
  imports Main "HOL-Library.Word"
begin

unbundle bit_operations_syntax

section \<open>The SCSU decoder of package scsu\<close>

text \<open>
  A shallow embedding of the decoder (type \<open>Decoder\<close> and its methods). Go's \<open>byte\<close>,
  \<open>uint16\<close> and \<open>int32\<close> (\<open>rune\<close>) are words of that width, so \<open>+\<close> and \<open>-\<close> wrap as
  in Go; a signed comparison of runes reads them with \<open>sint\<close>. Go's \<open>int\<close> (window
  indices, the byte counter) is \<open>int\<close>: the values stay far below 64 bits.
\<close>

type_synonym byte = "8 word"
type_synonym uint16 = "16 word"
type_synonym int32 = "32 word"
type_synonym rune = "32 word"

subsection \<open>Errors\<close>

text \<open>
  \<open>EOF\<close> is \<open>io.EOF\<close>, \<open>ErrUnexpectedEOF\<close> is \<open>io.ErrUnexpectedEOF\<close>, \<open>ErrIllegalInput\<close>
  and \<open>ErrInvalidUTF8\<close> are the package's variables of these names (the second is the
  encoder's), \<open>ErrOffset b\<close> is the value of \<open>fmt.Errorf("offset = %d", b)\<close>, and
  \<open>PanicIndex\<close> is the run-time panic of an array index out of range.
\<close>

datatype error =
  EOF | ErrUnexpectedEOF | ErrIllegalInput | ErrInvalidUTF8 | ErrOffset byte | PanicIndex

subsection \<open>Constants and tables\<close>

text \<open>
  Modelled from the spec: the constant and table declarations of the package (the command
  bytes, the thresholds of the window offset byte, \<open>staticOffset\<close>, \<open>fixedOffset\<close>,
  \<open>initialDynamicOffset\<close>) are not in the sources at hand. The spec names them as the
  fixed constants of the wire format, and the README names the format: the Standard
  Compression Scheme for Unicode, UTS 6. The values are the ones of that standard; the
  decoder's own comments agree with them (no window between 0x3400 and 0xDFFF, 167 legal
  index values, fixed offsets selected by 0xF9 to 0xFF).
\<close>

text \<open>Modelled from the spec: the command bytes of single-byte mode.\<close>

definition SQ0 :: byte where "SQ0 = 0x01"
definition SQ1 :: byte where "SQ1 = 0x02"
definition SQ2 :: byte where "SQ2 = 0x03"
definition SQ3 :: byte where "SQ3 = 0x04"
definition SQ4 :: byte where "SQ4 = 0x05"
definition SQ5 :: byte where "SQ5 = 0x06"
definition SQ6 :: byte where "SQ6 = 0x07"
definition SQ7 :: byte where "SQ7 = 0x08"

definition SDX :: byte where "SDX = 0x0B"
definition Srs :: byte where "Srs = 0x0C"
definition SQU :: byte where "SQU = 0x0E"
definition SCU :: byte where "SCU = 0x0F"

definition SC0 :: byte where "SC0 = 0x10"
definition SC1 :: byte where "SC1 = 0x11"
definition SC2 :: byte where "SC2 = 0x12"
definition SC3 :: byte where "SC3 = 0x13"
definition SC4 :: byte where "SC4 = 0x14"
definition SC5 :: byte where "SC5 = 0x15"
definition SC6 :: byte where "SC6 = 0x16"
definition SC7 :: byte where "SC7 = 0x17"

definition SD0 :: byte where "SD0 = 0x18"
definition SD1 :: byte where "SD1 = 0x19"
definition SD2 :: byte where "SD2 = 0x1A"
definition SD3 :: byte where "SD3 = 0x1B"
definition SD4 :: byte where "SD4 = 0x1C"
definition SD5 :: byte where "SD5 = 0x1D"
definition SD6 :: byte where "SD6 = 0x1E"
definition SD7 :: byte where "SD7 = 0x1F"

text \<open>Modelled from the spec: the command bytes of unicode mode.\<close>

definition UC0 :: byte where "UC0 = 0xE0"
definition UC7 :: byte where "UC7 = 0xE7"
definition UD0 :: byte where "UD0 = 0xE8"
definition UD7 :: byte where "UD7 = 0xEF"
definition UQU :: byte where "UQU = 0xF0"
definition UDX :: byte where "UDX = 0xF1"

text \<open>
  Modelled from the spec: the thresholds of the offset byte. Offset bytes below
  \<open>gapThreshold\<close> give the half-blocks below 0x3400, those from there to \<open>reservedStart\<close> the
  half-blocks from 0xE000 on (\<open>gapOffset\<close> skips the region between), and those from
  \<open>fixedThreshold\<close> on select a fixed offset.
\<close>

definition gapThreshold :: byte where "gapThreshold = 0x68"
definition gapOffset :: int32 where "gapOffset = 0xAC00"
definition reservedStart :: byte where "reservedStart = 0xA8"
definition fixedThreshold :: byte where "fixedThreshold = 0xF9"

text \<open>
  Modelled from the spec: the eight static window offsets, the initial positions of the
  eight dynamic windows, and the seven fixed offsets.
\<close>

definition staticOffset :: "int32 list" where
  "staticOffset = [0x0000, 0x0080, 0x0100, 0x0300, 0x2000, 0x2080, 0x2100, 0x3000]"

definition initialDynamicOffset :: "int32 list" where
  "initialDynamicOffset = [0x0080, 0x00C0, 0x0400, 0x0600, 0x0900, 0x3040, 0x30A0, 0xFF00]"

definition fixedOffset :: "int32 list" where
  "fixedOffset = [0x00C0, 0x0250, 0x0370, 0x0530, 0x3040, 0x30A0, 0xFF60]"

lemmas single_byte_tags =
  SQ0_def SQ1_def SQ2_def SQ3_def SQ4_def SQ5_def SQ6_def SQ7_def
  SDX_def Srs_def SQU_def SCU_def
  SC0_def SC1_def SC2_def SC3_def SC4_def SC5_def SC6_def SC7_def
  SD0_def SD1_def SD2_def SD3_def SD4_def SD5_def SD6_def SD7_def

lemmas unicode_tags = UC0_def UC7_def UD0_def UD7_def UQU_def UDX_def

lemmas offset_limits = gapThreshold_def reservedStart_def fixedThreshold_def

subsection \<open>State\<close>

text \<open>
  Modelled from the spec: the embedded struct \<open>scsu\<close> and its \<open>init\<close> are declared outside
  the sources at hand. The decoder uses two of its fields, \<open>window\<close> (the active window,
  an \<open>int\<close>) and \<open>dynamicOffset\<close> (the spec's eight signed 32-bit base offsets). A Go array
  is a list here; an index outside it is the panic \<open>PanicIndex\<close>, written out in
  \<open>arr_get\<close> and \<open>arr_set\<close>.

  The byte reader \<open>brd\<close> is the input not yet read, as the \<open>bytes.Buffer\<close> of \<open>Decode\<close>
  has it: \<open>ReadByte\<close> on no input is \<open>io.EOF\<close>.
\<close>

record scsu =
  window :: int
  dynamicOffset :: "int32 list"

record decoder = scsu +
  brd :: "byte list"
  bytesRead :: int
  unicodeMode :: bool

definition arr_get :: "'a list \<Rightarrow> int \<Rightarrow> 'a option" where
  "arr_get xs i = (if 0 \<le> i \<and> i < int (length xs) then Some (xs ! nat i) else None)"

definition arr_set :: "'a list \<Rightarrow> int \<Rightarrow> 'a \<Rightarrow> 'a list option" where
  "arr_set xs i v = (if 0 \<le> i \<and> i < int (length xs) then Some (xs[nat i := v]) else None)"

text \<open>
  Modelled from the spec: \<open>init\<close> starts a stream with window 0 active and the dynamic
  windows at their initial positions.
\<close>

definition init :: "decoder \<Rightarrow> decoder" where
  "init d = d\<lparr>window := 0, dynamicOffset := initialDynamicOffset\<rparr>"

definition NewDecoder :: "byte list \<Rightarrow> decoder" where
  "NewDecoder r =
     init \<lparr>window = 0, dynamicOffset = replicate 8 0, brd = r, bytesRead = 0,
           unicodeMode = False\<rparr>"

definition readByte :: "decoder \<Rightarrow> (error + byte) \<times> decoder" where
  "readByte d =
     (case brd d of
        [] \<Rightarrow> (Inl EOF, d)
      | b # bs \<Rightarrow> (Inr b, d\<lparr>brd := bs, bytesRead := bytesRead d + 1\<rparr>))"

subsection \<open>Window definition\<close>

text \<open>
  \<open>defineWindow\<close> returns Go's \<open>error\<close> (\<open>None\<close> is \<open>nil\<close>) and the decoder as the call
  leaves it. \<open>int32(offset) << 7\<close> is \<open>push_bit 7 (ucast offset)\<close>; the index
  \<open>offset - fixedThreshold\<close> is computed on bytes.
\<close>

definition defineWindow :: "int \<Rightarrow> byte \<Rightarrow> decoder \<Rightarrow> error option \<times> decoder" where
  "defineWindow iWindow offset d =
     (if offset = 0 then (Some ErrIllegalInput, d)
      else if offset < gapThreshold then
        (case arr_set (dynamicOffset d) iWindow (push_bit 7 (ucast offset)) of
           None \<Rightarrow> (Some PanicIndex, d)
         | Some a \<Rightarrow> (None, d\<lparr>dynamicOffset := a, window := iWindow\<rparr>))
      else if offset < reservedStart then
        (case arr_set (dynamicOffset d) iWindow (push_bit 7 (ucast offset) + gapOffset) of
           None \<Rightarrow> (Some PanicIndex, d)
         | Some a \<Rightarrow> (None, d\<lparr>dynamicOffset := a, window := iWindow\<rparr>))
      else if offset < fixedThreshold then (Some (ErrOffset offset), d)
      else
        (case arr_get fixedOffset (uint (offset - fixedThreshold)) of
           None \<Rightarrow> (Some PanicIndex, d)
         | Some v \<Rightarrow>
             (case arr_set (dynamicOffset d) iWindow v of
                None \<Rightarrow> (Some PanicIndex, d)
              | Some a \<Rightarrow> (None, d\<lparr>dynamicOffset := a, window := iWindow\<rparr>))))"

text \<open>
  \<open>defineExtendedWindow\<close> has no result in Go; the \<open>error option\<close> of the model is there
  for the index panic only.
\<close>

definition defineExtendedWindow :: "uint16 \<Rightarrow> decoder \<Rightarrow> error option \<times> decoder" where
  "defineExtendedWindow chOffset d =
     (let window' = drop_bit 13 chOffset in
      case arr_set (dynamicOffset d) (uint window')
             (push_bit 7 ((ucast chOffset :: int32) AND 0x1FFF) + push_bit 16 1) of
        None \<Rightarrow> (Some PanicIndex, d)
      | Some a \<Rightarrow> (None, d\<lparr>dynamicOffset := a, window := uint window'\<rparr>))"

subsection \<open>Reading\<close>

text \<open>\<open>unexpectedEOF\<close> converts \<open>io.EOF\<close> into \<open>io.ErrUnexpectedEOF\<close>.\<close>

definition unexpectedEOF :: "error \<Rightarrow> error" where
  "unexpectedEOF e = (if e = EOF then ErrUnexpectedEOF else e)"

definition uint16FromTwoBytes :: "byte \<Rightarrow> byte \<Rightarrow> uint16" where
  "uint16FromTwoBytes hi lo = push_bit 8 (ucast hi) OR ucast lo"

definition readUint16 :: "decoder \<Rightarrow> (error + uint16) \<times> decoder" where
  "readUint16 d =
     (case readByte d of
        (Inl err, d1) \<Rightarrow> (Inl (unexpectedEOF err), d1)
      | (Inr b1, d1) \<Rightarrow>
          (case readByte d1 of
             (Inl err, d2) \<Rightarrow> (Inl (unexpectedEOF err), d2)
           | (Inr b2, d2) \<Rightarrow> (Inr (uint16FromTwoBytes b1 b2), d2)))"

text \<open>
  The two functions of Go's package \<open>unicode/utf16\<close> that the decoder calls, as that
  package defines them: a surrogate is a rune in 0xD800..0xDFFF, and \<open>DecodeRune\<close>
  combines a high surrogate with a low one and is U+FFFD for any other pair.
\<close>

definition utf16_IsSurrogate :: "rune \<Rightarrow> bool" where
  "utf16_IsSurrogate r = (0xD800 \<le> sint r \<and> sint r < 0xE000)"

definition utf16_DecodeRune :: "rune \<Rightarrow> rune \<Rightarrow> rune" where
  "utf16_DecodeRune r1 r2 =
     (if 0xD800 \<le> sint r1 \<and> sint r1 < 0xDC00 \<and> 0xDC00 \<le> sint r2 \<and> sint r2 < 0xE000
      then (push_bit 10 (r1 - 0xD800) OR (r2 - 0xDC00)) + 0x10000
      else 0xFFFD)"

subsection \<open>Unicode mode\<close>

text \<open>
  Every path through the body of the \<open>for\<close> loop of \<open>expandUnicode\<close> returns, so the
  body runs once. A result is Go's pair \<open>(rune, error)\<close> with the error first: \<open>Inl\<close>
  the error when it is not \<open>nil\<close> (every caller looks at the error before the rune),
  else \<open>Inr\<close> the rune; the rune \<open>-1\<close> tells \<open>readRune\<close> that only the state changed.
\<close>

definition expandUnicode :: "decoder \<Rightarrow> (error + rune) \<times> decoder" where
  "expandUnicode d =
     (case readByte d of
        (Inl err, d1) \<Rightarrow> (Inl err, d1)
      | (Inr b, d1) \<Rightarrow>
          if UC0 \<le> b \<and> b \<le> UC7 then
            (Inr (- 1), d1\<lparr>window := uint b - uint UC0, unicodeMode := False\<rparr>)
          else if UD0 \<le> b \<and> b \<le> UD7 then
            (case readByte d1 of
               (Inl err, d2) \<Rightarrow> (Inl (unexpectedEOF err), d2)
             | (Inr b1, d2) \<Rightarrow>
                 (case defineWindow (uint b - uint UD0) b1 (d2\<lparr>unicodeMode := False\<rparr>) of
                    (Some e, d3) \<Rightarrow> (Inl e, d3)
                  | (None, d3) \<Rightarrow> (Inr (- 1), d3)))
          else if b = UDX then
            (case readUint16 d1 of
               (Inl err, d2) \<Rightarrow> (Inl (unexpectedEOF err), d2)
             | (Inr c, d2) \<Rightarrow>
                 (case defineExtendedWindow c d2 of
                    (Some e, d3) \<Rightarrow> (Inl e, d3)
                  | (None, d3) \<Rightarrow> (Inr (- 1), d3\<lparr>unicodeMode := False\<rparr>)))
          else if b = UQU then
            (case readUint16 d1 of
               (Inl err, d2) \<Rightarrow> (Inl err, d2)
             | (Inr r, d2) \<Rightarrow> (Inr (ucast r), d2))
          else
            (case readByte d1 of
               (Inl err, d2) \<Rightarrow> (Inl (unexpectedEOF err), d2)
             | (Inr b1, d2) \<Rightarrow>
                 (let ch = (ucast (uint16FromTwoBytes b b1) :: rune) in
                  if utf16_IsSurrogate ch then
                    (case readUint16 d2 of
                       (Inl err, d3) \<Rightarrow> (Inl (unexpectedEOF err), d3)
                     | (Inr ch1, d3) \<Rightarrow>
                         (let surrLo = (ucast ch1 :: rune) in
                          if \<not> utf16_IsSurrogate surrLo then (Inl ErrIllegalInput, d3)
                          else (Inr (utf16_DecodeRune ch surrLo), d3)))
                  else (Inr ch, d2))))"

subsection \<open>Single-byte mode\<close>

text \<open>
  One pass through the body of the \<open>for\<close> loop of \<open>expandSingleByte\<close> either returns
  or goes round again. \<open>outputChar\<close> is the \<open>default:\<close> branch of the \<open>switch\<close> (output
  as character), which the \<open>SQn\<close> case falls through to with the window pair it chose
  and the byte it read. Go tries the other cases in the order written and \<open>default\<close>
  last.
\<close>

datatype 'a step = Continue | Return 'a

definition outputChar :: "byte \<Rightarrow> int \<Rightarrow> int \<Rightarrow> decoder \<Rightarrow> error + rune" where
  "outputChar b staticWindow dynamicWindow d =
     (if b < 0x80 then
        (case arr_get staticOffset staticWindow of
           None \<Rightarrow> Inl PanicIndex
         | Some off \<Rightarrow> Inr (ucast b + off))
      else
        (case arr_get (dynamicOffset d) dynamicWindow of
           None \<Rightarrow> Inl PanicIndex
         | Some off \<Rightarrow> Inr ((ucast b - 0x80) + off)))"

definition expandSingleByte_body :: "decoder \<Rightarrow> (error + rune) step \<times> decoder" where
  "expandSingleByte_body d =
     (case readByte d of
        (Inl err, d1) \<Rightarrow> (Return (Inl err), d1)
      | (Inr b, d1) \<Rightarrow>
          if b \<in> set [SQ0, SQ1, SQ2, SQ3, SQ4, SQ5, SQ6, SQ7] then
            (let dynamicWindow = uint b - uint SQ0; staticWindow = dynamicWindow in
             case readByte d1 of
               (Inl err, d2) \<Rightarrow> (Return (Inl (unexpectedEOF err)), d2)
             | (Inr b', d2) \<Rightarrow> (Return (outputChar b' staticWindow dynamicWindow d2), d2))
          else if b = SDX then
            (case readUint16 d1 of
               (Inl err, d2) \<Rightarrow> (Return (Inl (unexpectedEOF err)), d2)
             | (Inr ch, d2) \<Rightarrow>
                 (case defineExtendedWindow ch d2 of
                    (Some e, d3) \<Rightarrow> (Return (Inl e), d3)
                  | (None, d3) \<Rightarrow> (Continue, d3)))
          else if b \<in> set [SD0, SD1, SD2, SD3, SD4, SD5, SD6, SD7] then
            (case readByte d1 of
               (Inl err, d2) \<Rightarrow> (Return (Inl (unexpectedEOF err)), d2)
             | (Inr b1, d2) \<Rightarrow>
                 (case defineWindow (uint b - uint SD0) b1 d2 of
                    (Some e, d3) \<Rightarrow> (Return (Inl e), d3)
                  | (None, d3) \<Rightarrow> (Continue, d3)))
          else if b \<in> set [SC0, SC1, SC2, SC3, SC4, SC5, SC6, SC7] then
            (Continue, d1\<lparr>window := uint b - uint SC0\<rparr>)
          else if b = SCU then (Return (Inr (- 1)), d1\<lparr>unicodeMode := True\<rparr>)
          else if b = SQU then
            (case readUint16 d1 of
               (Inl err, d2) \<Rightarrow> (Return (Inl err), d2)
             | (Inr ch, d2) \<Rightarrow> (Return (Inr (ucast ch)), d2))
          else if b = Srs then (Return (Inl ErrIllegalInput), d1)
          else (Return (outputChar b 0 (window d1) d1), d1))"

text \<open>Each pass that goes round again has read a byte, so the loop ends.\<close>

lemma readByte_brd_le:
  "readByte d = (r, d') \<Longrightarrow> length (brd d') \<le> length (brd d)"
  by (auto simp: readByte_def split: list.splits)

lemma defineWindow_brd: "defineWindow i b d = (r, d') \<Longrightarrow> brd d' = brd d"
  by (auto simp: defineWindow_def split: if_splits option.splits)

lemma defineExtendedWindow_brd: "defineExtendedWindow c d = (r, d') \<Longrightarrow> brd d' = brd d"
  by (auto simp: defineExtendedWindow_def Let_def split: if_splits option.splits)

lemma readUint16_brd_le:
  "readUint16 d = (r, d') \<Longrightarrow> length (brd d') \<le> length (brd d)"
  by (auto simp: readUint16_def split: prod.splits sum.splits dest!: readByte_brd_le)

lemma expandSingleByte_body_eof:
  "brd d = [] \<Longrightarrow> expandSingleByte_body d = (Return (Inl EOF), d)"
  by (simp add: expandSingleByte_body_def readByte_def)

lemma expandSingleByte_body_brd:
  assumes "expandSingleByte_body d = (s, d')" and "brd d \<noteq> []"
  shows "length (brd d') < length (brd d)"
proof -
  from assms(2) obtain b bs where Cons: "brd d = b # bs"
    by (cases "brd d") auto
  define d1 where "d1 = d\<lparr>brd := bs, bytesRead := bytesRead d + 1\<rparr>"
  have rb: "readByte d = (Inr b, d1)"
    by (simp add: readByte_def Cons d1_def)
  have d1: "length (brd d1) < length (brd d)"
    by (simp add: d1_def Cons)
  from assms(1) have "length (brd d') \<le> length (brd d1)"
    unfolding expandSingleByte_body_def rb
    by (auto simp: Let_def split: prod.splits sum.splits if_splits option.splits
        dest!: readByte_brd_le readUint16_brd_le defineWindow_brd defineExtendedWindow_brd)
  with d1 show ?thesis by simp
qed

lemma expandSingleByte_body_Continue:
  "expandSingleByte_body d = (Continue, d') \<Longrightarrow> length (brd d') < length (brd d)"
  by (cases "brd d = []") (auto simp: expandSingleByte_body_eof expandSingleByte_body_brd)

function expandSingleByte :: "decoder \<Rightarrow> (error + rune) \<times> decoder" where
  "expandSingleByte d =
     (case expandSingleByte_body d of
        (Return r, d') \<Rightarrow> (r, d')
      | (Continue, d') \<Rightarrow> expandSingleByte d')"
  by pat_completeness auto
termination
  apply (relation "measure (\<lambda>d. length (brd d))")
   apply simp
  apply (simp add: expandSingleByte_body_Continue)
  done

declare expandSingleByte.simps [simp del]

lemma expandSingleByte_eof:
  "brd d = [] \<Longrightarrow> expandSingleByte d = (Inl EOF, d)"
  by (subst expandSingleByte.simps) (simp add: expandSingleByte_body_eof)

lemma expandSingleByte_brd:
  "brd d \<noteq> [] \<Longrightarrow> length (brd (snd (expandSingleByte d))) < length (brd d)"
proof (induction d rule: expandSingleByte.induct)
  case (1 d)
  obtain s d' where b: "expandSingleByte_body d = (s, d')"
    by (cases "expandSingleByte_body d")
  have lt: "length (brd d') < length (brd d)"
    using b "1.prems" by (rule expandSingleByte_body_brd)
  show ?case
  proof (cases s)
    case (Return r)
    with b lt show ?thesis
      by (subst expandSingleByte.simps) simp
  next
    case Continue
    have "length (brd (snd (expandSingleByte d'))) \<le> length (brd d')"
    proof (cases "brd d' = []")
      case True
      then show ?thesis by (simp add: expandSingleByte_eof)
    next
      case False
      with "1.IH" [of Continue d'] b Continue show ?thesis by (simp add: less_imp_le)
    qed
    with b lt Continue show ?thesis
      by (subst expandSingleByte.simps) simp
  qed
qed

lemma expandUnicode_eof:
  "brd d = [] \<Longrightarrow> expandUnicode d = (Inl EOF, d)"
  by (simp add: expandUnicode_def readByte_def)

lemma expandUnicode_brd:
  assumes "brd d \<noteq> []"
  shows "length (brd (snd (expandUnicode d))) < length (brd d)"
proof -
  from assms obtain b bs where Cons: "brd d = b # bs"
    by (cases "brd d") auto
  define d1 where "d1 = d\<lparr>brd := bs, bytesRead := bytesRead d + 1\<rparr>"
  have rb: "readByte d = (Inr b, d1)"
    by (simp add: readByte_def Cons d1_def)
  have d1: "length (brd d1) < length (brd d)"
    by (simp add: d1_def Cons)
  obtain r d' where e: "expandUnicode d = (r, d')"
    by (cases "expandUnicode d")
  then have "length (brd d') \<le> length (brd d1)"
    unfolding expandUnicode_def rb
    by (auto simp: Let_def split: prod.splits sum.splits if_splits option.splits
        dest!: readByte_brd_le readUint16_brd_le defineWindow_brd defineExtendedWindow_brd)
  with d1 e show ?thesis by simp
qed

subsection \<open>Reading runes and strings\<close>

lemma expand_Inr_brd:
  assumes "(if unicodeMode d then expandUnicode d else expandSingleByte d) = (Inr r, d')"
  shows "length (brd d') < length (brd d)"
proof (cases "brd d = []")
  case True
  with assms show ?thesis
    by (simp add: expandUnicode_eof expandSingleByte_eof split: if_splits)
next
  case False
  with assms expandUnicode_brd [of d] expandSingleByte_brd [of d] show ?thesis
    by (auto split: if_splits)
qed

function readRune :: "decoder \<Rightarrow> (error + rune) \<times> decoder" where
  "readRune d =
     (case (if unicodeMode d then expandUnicode d else expandSingleByte d) of
        (Inl err, d') \<Rightarrow> (Inl err, d')
      | (Inr r, d') \<Rightarrow> if r = - 1 then readRune d' else (Inr r, d'))"
  by pat_completeness auto
termination
  apply (relation "measure (\<lambda>d. length (brd d))")
   apply simp
  apply (simp add: expand_Inr_brd [OF sym])
  done

declare readRune.simps [simp del]

text \<open>\<open>ReadRune\<close> also returns the number of bytes it consumed.\<close>

definition ReadRune :: "decoder \<Rightarrow> (error + rune) \<times> int \<times> decoder" where
  "ReadRune d =
     (let pr = bytesRead d in
      case readRune d of (r, d') \<Rightarrow> (r, bytesRead d' - pr, d'))"

text \<open>
  A Go string is its bytes. \<open>WriteRune\<close> is \<open>strings.Builder.WriteRune\<close>, which appends
  the UTF-8 encoding of the rune as \<open>utf8.AppendRune\<close> computes it: one to four bytes
  for a scalar value, and the three bytes of U+FFFD for a surrogate and for a rune out
  of range. It compares the rune as a \<open>uint32\<close>.
\<close>

definition WriteRune :: "byte list \<Rightarrow> rune \<Rightarrow> byte list" where
  "WriteRune sb r =
     (if r \<le> 0x7F then sb @ [ucast r]
      else if r \<le> 0x7FF then
        sb @ [0xC0 OR ucast (signed_drop_bit 6 r), 0x80 OR (ucast r AND 0x3F)]
      else if r < 0xD800 \<or> (0xDFFF < r \<and> r \<le> 0xFFFF) then
        sb @ [0xE0 OR ucast (signed_drop_bit 12 r),
              0x80 OR (ucast (signed_drop_bit 6 r) AND 0x3F),
              0x80 OR (ucast r AND 0x3F)]
      else if 0xFFFF < r \<and> r \<le> 0x10FFFF then
        sb @ [0xF0 OR ucast (signed_drop_bit 18 r),
              0x80 OR (ucast (signed_drop_bit 12 r) AND 0x3F),
              0x80 OR (ucast (signed_drop_bit 6 r) AND 0x3F),
              0x80 OR (ucast r AND 0x3F)]
      else sb @ [0xEF, 0xBF, 0xBD])"

lemma readRune_Inr_brd:
  "readRune d = (Inr r, d') \<Longrightarrow> length (brd d') < length (brd d)"
proof (induction d rule: readRune.induct)
  case (1 d)
  obtain x y where e: "(if unicodeMode d then expandUnicode d else expandSingleByte d) = (x, y)"
    by (cases "if unicodeMode d then expandUnicode d else expandSingleByte d")
  show ?case
  proof (cases x)
    case (Inl err)
    with e "1.prems" show ?thesis
      by (subst (asm) readRune.simps) simp
  next
    case (Inr r')
    with e have lt: "length (brd y) < length (brd d)"
      by (simp add: expand_Inr_brd)
    show ?thesis
    proof (cases "r' = - 1")
      case True
      with e Inr "1.prems" have "readRune y = (Inr r, d')"
        by (subst (asm) readRune.simps) simp
      then have "length (brd d') < length (brd y)"
        by (rule "1.IH" [OF e [symmetric] Inr True])
      with lt show ?thesis by simp
    next
      case False
      with e Inr "1.prems" have "d' = y"
        by (subst (asm) readRune.simps) simp
      with lt show ?thesis by simp
    qed
  qed
qed

text \<open>
  \<open>ReadString\<close>: the loop with its string builder \<open>sb\<close>. \<open>io.EOF\<close> from \<open>readRune\<close> ends
  it with the string built so far; any other error is returned with the empty string,
  which \<open>Inl\<close> stands for.
\<close>

function ReadString_loop :: "byte list \<Rightarrow> decoder \<Rightarrow> (error + byte list) \<times> decoder" where
  "ReadString_loop sb d =
     (case readRune d of
        (Inl err, d') \<Rightarrow> if err = EOF then (Inr sb, d') else (Inl err, d')
      | (Inr r, d') \<Rightarrow> ReadString_loop (WriteRune sb r) d')"
  by pat_completeness auto
termination
  apply (relation "measure (\<lambda>(sb, d). length (brd d))")
   apply simp
  apply (simp add: readRune_Inr_brd [OF sym])
  done

declare ReadString_loop.simps [simp del]

definition ReadString :: "decoder \<Rightarrow> (error + byte list) \<times> decoder" where
  "ReadString d = ReadString_loop [] d"

definition Decode :: "byte list \<Rightarrow> error + byte list" where
  "Decode b = fst (ReadString (NewDecoder b))"

section \<open>Notions of the properties\<close>

text \<open>
  The spec's error \<open>InvalidWindowOffset\<close> is the error that \<open>defineWindow\<close> makes for a
  reserved offset byte, \<open>fmt.Errorf("offset = %d", offset)\<close>; the spec's \<open>IllegalInput\<close> is
  \<open>ErrIllegalInput\<close>.
\<close>

definition InvalidWindowOffset :: "error \<Rightarrow> bool" where
  "InvalidWindowOffset e = (case e of ErrOffset b \<Rightarrow> True | _ \<Rightarrow> False)"

text \<open>The bytes that are commands in single-byte mode: the cases of the \<open>switch\<close>.\<close>

definition singleByteTag :: "byte \<Rightarrow> bool" where
  "singleByteTag b =
     (b \<in> set [SQ0, SQ1, SQ2, SQ3, SQ4, SQ5, SQ6, SQ7, SDX,
                SD0, SD1, SD2, SD3, SD4, SD5, SD6, SD7,
                SC0, SC1, SC2, SC3, SC4, SC5, SC6, SC7, SCU, SQU, Srs])"

text \<open>
  \<open>trailingBytes uni bs\<close> is the number of bytes that the construct starting at the first
  byte of \<open>bs\<close> needs after it, in unicode mode (\<open>uni\<close>) or in single-byte mode: one for
  \<open>SQn\<close>, \<open>SDn\<close> and \<open>UDn\<close>, two for \<open>SDX\<close>, \<open>SQU\<close>, \<open>UDX\<close> and \<open>UQU\<close>, and for a code
  unit of unicode mode one, or three when the unit is a surrogate. The input is
  \<open>truncated\<close> when it ends before them.
\<close>

definition trailingBytes :: "bool \<Rightarrow> byte list \<Rightarrow> nat" where
  "trailingBytes uni bs =
     (case bs of
        [] \<Rightarrow> 0
      | t # rest \<Rightarrow>
          if \<not> uni then
            (if t \<in> set [SQ0, SQ1, SQ2, SQ3, SQ4, SQ5, SQ6, SQ7] then 1
             else if t \<in> set [SD0, SD1, SD2, SD3, SD4, SD5, SD6, SD7] then 1
             else if t = SDX \<or> t = SQU then 2
             else 0)
          else
            (if UC0 \<le> t \<and> t \<le> UC7 then 0
             else if UD0 \<le> t \<and> t \<le> UD7 then 1
             else if t = UDX \<or> t = UQU then 2
             else
               (case rest of
                  [] \<Rightarrow> 1
                | t' # _ \<Rightarrow>
                    if utf16_IsSurrogate (ucast (uint16FromTwoBytes t t')) then 3 else 1)))"

definition truncated :: "bool \<Rightarrow> byte list \<Rightarrow> bool" where
  "truncated uni bs = (bs \<noteq> [] \<and> length (tl bs) < trailingBytes uni bs)"

text \<open>
  A decoder is \<open>wellformed\<close> when the array of window offsets has its eight entries and
  the active window is one of them. \<open>activates d d'\<close>: every window whose offset differs
  between \<open>d\<close> and \<open>d'\<close> is the active window of \<open>d'\<close>.
\<close>

definition wellformed :: "decoder \<Rightarrow> bool" where
  "wellformed d = (length (dynamicOffset d) = 8 \<and> 0 \<le> window d \<and> window d < 8)"

definition activates :: "decoder \<Rightarrow> decoder \<Rightarrow> bool" where
  "activates d d' =
     (\<forall>j \<in> {0..<8}. dynamicOffset d' ! j \<noteq> dynamicOffset d ! j \<longrightarrow> window d' = int j)"

section \<open>The encoder\<close>

text \<open>
  Modelled from the spec: the encoder (type \<open>Encoder\<close>, \<open>Encode\<close> and the strict rune source
  that feeds it), which \<open>Fuzz\<close> calls, is not in the sources at hand. The spec gives its
  contract and a design-level algorithm and leaves the heuristics open; the definitions
  below are the simple greedy strategy of its design notes: prefer the active window, then
  an already defined window, then redefine a window, then fall back to unicode mode. The
  encoder holds its own window state, with the fields of \<open>scsu\<close>, and its mode; a new one
  starts as a new decoder does.
\<close>

record encoder = scsu +
  inUnicodeMode :: bool

definition NewEncoder :: encoder where
  "NewEncoder = \<lparr>window = 0, dynamicOffset = initialDynamicOffset, inUnicodeMode = False\<rparr>"

text \<open>
  Modelled from the spec: the source handed to the encoder must hold scalar values only.
  \<open>ValidRune\<close> is Go's \<open>utf8.ValidRune\<close>: a rune in range that is no surrogate.
\<close>

definition ValidRune :: "rune \<Rightarrow> bool" where
  "ValidRune r = (r < 0xD800 \<or> (0xDFFF < r \<and> r \<le> 0x10FFFF))"

text \<open>
  Modelled from the spec: a window with base \<open>off\<close> covers the 128 values from \<open>off\<close> on, and
  the data byte for a value in it is 0x80 plus the distance from the base. \<open>findWindow\<close>
  looks for a defined window that covers the rune, the active one first.
\<close>

definition inWindow :: "int32 \<Rightarrow> rune \<Rightarrow> bool" where
  "inWindow off c = (sint off \<le> sint c \<and> sint c < sint off + 0x80)"

definition dataByte :: "int32 \<Rightarrow> rune \<Rightarrow> byte" where
  "dataByte off c = 0x80 + ucast (c - off)"

definition findWindow :: "encoder \<Rightarrow> rune \<Rightarrow> int option" where
  "findWindow e c =
     (if inWindow (dynamicOffset e ! nat (window e)) c then Some (window e)
      else map_option int (find (\<lambda>i. inWindow (dynamicOffset e ! i) c) [0..<8]))"

text \<open>
  Modelled from the spec: the offset byte that positions a window over the half-block of a
  rune, the inverse of the spec's offset derivation (no window can be put between 0x3400
  and 0xDFFF, nor above the first 65536 values by \<open>SDn\<close>), and the base offset that
  \<open>defineWindow\<close> derives from such a byte.
\<close>

definition offsetByte :: "rune \<Rightarrow> byte option" where
  "offsetByte c =
     (if 0x80 \<le> c \<and> c < 0x3400 then Some (ucast (drop_bit 7 c))
      else if 0xE000 \<le> c \<and> c < 0x10000 then Some (ucast (drop_bit 7 (c - gapOffset)))
      else None)"

definition offsetOf :: "byte \<Rightarrow> int32" where
  "offsetOf x =
     (if x < gapThreshold then push_bit 7 (ucast x) else push_bit 7 (ucast x) + gapOffset)"

text \<open>
  Modelled from the spec: a rune in unicode mode is its 16-bit code unit, big-endian, or
  its surrogate pair when it is beyond the first 65536 values; a unit whose first byte
  would read as a command of unicode mode is quoted with \<open>UQU\<close>.
\<close>

definition units :: "rune \<Rightarrow> byte list" where
  "units c =
     (if c < 0x10000 then
        (let hi = (ucast (drop_bit 8 c) :: byte); lo = (ucast c :: byte) in
         if UC0 \<le> hi \<and> hi \<le> UDX then [UQU, hi, lo] else [hi, lo])
      else
        (let c' = c - 0x10000;
             h = (0xD800 + ucast (drop_bit 10 c') :: uint16);
             l = (0xDC00 + ucast (c' AND 0x3FF) :: uint16)
         in [ucast (drop_bit 8 h), ucast h, ucast (drop_bit 8 l), ucast l]))"

text \<open>
  Modelled from the spec: one rune in single-byte mode. A value below 0x80 is its own
  byte, quoted from static window 0 with \<open>SQ0\<close> when the byte is a command; a value in the
  active window is one data byte; a value in another defined window is \<open>SCn\<close> and the data
  byte; a value whose half-block can hold a window redefines one (the spec does not say
  which: here the window after the active one, cyclically) with \<open>SDn\<close>, the offset byte and
  the data byte; any other value switches to unicode mode with \<open>SCU\<close>.
\<close>

definition encodeSingleByte :: "encoder \<Rightarrow> rune \<Rightarrow> byte list \<times> encoder" where
  "encodeSingleByte e c =
     (if c < 0x80 then
        (if singleByteTag (ucast c) then ([SQ0, ucast c], e) else ([ucast c], e))
      else
        (case findWindow e c of
           Some i \<Rightarrow>
             ((if i = window e then [] else [SC0 + word_of_int i]) @
                [dataByte (dynamicOffset e ! nat i) c],
              e\<lparr>window := i\<rparr>)
         | None \<Rightarrow>
             (case offsetByte c of
                Some x \<Rightarrow>
                  (let n = (window e + 1) mod 8 in
                   ([SD0 + word_of_int n, x, dataByte (offsetOf x) c],
                    e\<lparr>dynamicOffset := (dynamicOffset e)[nat n := offsetOf x], window := n\<rparr>))
              | None \<Rightarrow> (SCU # units c, e\<lparr>inUnicodeMode := True\<rparr>))))"

text \<open>
  Modelled from the spec: one rune in either mode. In unicode mode a rune that lacks
  window locality (it is not below 0x80, lies in no defined window and can have no window
  defined for it) is written as its code units; for any other rune unicode mode is left,
  with \<open>UCn\<close> for the active window, and the rune is written in single-byte mode.
\<close>

definition encodeRune :: "encoder \<Rightarrow> rune \<Rightarrow> byte list \<times> encoder" where
  "encodeRune e c =
     (if inUnicodeMode e then
        (if c < 0x80 \<or> findWindow e c \<noteq> None \<or> offsetByte c \<noteq> None then
           (case encodeSingleByte (e\<lparr>inUnicodeMode := False\<rparr>) c of
              (bs, e') \<Rightarrow> ((UC0 + word_of_int (window e)) # bs, e'))
         else (units c, e))
      else encodeSingleByte e c)"

text \<open>
  Modelled from the spec: \<open>Encode\<close> on a sequence of runes. A rune that is no scalar value
  is refused with \<open>ErrInvalidUTF8\<close>. \<open>stringOf s\<close> is the Go string that holds the runes
  \<open>s\<close>, written rune by rune.
\<close>

fun encodeRunes :: "encoder \<Rightarrow> rune list \<Rightarrow> error + byte list" where
  "encodeRunes e [] = Inr []"
| "encodeRunes e (c # cs) =
     (if \<not> ValidRune c then Inl ErrInvalidUTF8
      else case encodeRune e c of
             (bs, e') \<Rightarrow>
               (case encodeRunes e' cs of Inl err \<Rightarrow> Inl err | Inr rest \<Rightarrow> Inr (bs @ rest)))"

definition Encode :: "rune list \<Rightarrow> error + byte list" where
  "Encode s = encodeRunes NewEncoder s"

definition stringOf :: "rune list \<Rightarrow> byte list" where
  "stringOf s = foldl WriteRune [] s"

text \<open>
  \<open>sync e bs d\<close>: the decoder \<open>d\<close> has the window state and the mode of the encoder \<open>e\<close>,
  and the input \<open>bs\<close> before it.
\<close>

definition sync :: "encoder \<Rightarrow> byte list \<Rightarrow> decoder \<Rightarrow> bool" where
  "sync e bs d =
     (window d = window e \<and> dynamicOffset d = dynamicOffset e \<and>
      unicodeMode d = inUnicodeMode e \<and> brd d = bs)"

definition wellformedE :: "encoder \<Rightarrow> bool" where
  "wellformedE e = (length (dynamicOffset e) = 8 \<and> 0 \<le> window e \<and> window e < 8)"

section \<open>Properties of the decoder\<close>

subsection \<open>Extended windows\<close>

lemma sint_eq_uint_small:
  assumes "uint (w :: int32) < 2 ^ 31"
  shows "sint w = uint w"
proof -
  have "- (2 ^ 31) \<le> uint w"
    by (rule order_trans [of _ 0]) simp_all
  then have "signed_take_bit 31 (uint w) = uint w"
    using assms by (rule signed_take_bit_int_eq_self)
  then show ?thesis
    by (simp add: sint_uint)
qed

lemma window_index_bound: "uint (drop_bit 13 (D :: uint16)) < 8"
proof -
  have "unat D < 2 ^ 16" using unsigned_less [of D] by simp
  then have "unat D div 2 ^ 13 < 8" by simp
  then have "unat (drop_bit 13 D) < 8" 
    by (simp only: unat_drop_bit_eq) (simp add: drop_bit_eq_div)
  then show ?thesis by (simp only: uint_nat)
qed

lemma mask13: "(0x1FFF :: 'a :: len word) = mask 13"
  by (simp add: mask_eq_exp_minus_1)

lemma mask_widen: "(ucast (D :: uint16) :: int32) AND 0x1FFF = ucast (D AND 0x1FFF)"
  unfolding mask13 by (rule bit_word_eqI) (auto simp: bit_simps)

lemma uint_extended_shift:
  "uint (push_bit 7 (ucast ((D :: uint16) AND 0x1FFF)) :: int32) = (uint D mod 0x2000) * 0x80"
  unfolding mask13
  apply (simp only: unsigned_push_bit_eq unsigned_ucast_eq unsigned_and_eq unsigned_take_bit_eq
      flip: take_bit_eq_mask)
  apply (simp only: take_bit_eq_mod push_bit_eq_mult)
  apply (simp add: mod_mod_cancel)
  done

lemma uint_extended_offset:
  "uint (push_bit 7 (ucast ((D :: uint16) AND 0x1FFF)) + 0x10000 :: int32) =
     (uint D mod 0x2000) * 0x80 + 0x10000"
proof -
  have "uint D mod 0x2000 < 0x2000" by simp
  then have "(uint D mod 0x2000) * 0x80 + 0x10000 < 2 ^ 32" by simp
  moreover have "0 \<le> (uint D mod 0x2000) * 0x80 + 0x10000" by simp
  ultimately show ?thesis
    by (simp only: uint_word_ariths uint_extended_shift) simp
qed

lemma defineExtendedWindow_eq:
  assumes "length (dynamicOffset d) = 8"
  shows "defineExtendedWindow D d =
      (None, d\<lparr>dynamicOffset := (dynamicOffset d)[nat (uint (drop_bit 13 D)) :=
                 push_bit 7 (ucast (D AND 0x1FFF)) + 0x10000],
               window := uint (drop_bit 13 D)\<rparr>)"
  using assms window_index_bound [of D]
  by (simp add: defineExtendedWindow_def Let_def arr_set_def mask_widen)

lemma sint_extended_offset:
  "sint (push_bit 7 (ucast ((D :: uint16) AND 0x1FFF)) + 0x10000 :: int32) =
     (uint D mod 0x2000) * 0x80 + 0x10000"
proof -
  have "uint D mod 0x2000 < 0x2000" by simp
  then have "(uint D mod 0x2000) * 0x80 + 0x10000 < 2 ^ 31" by simp
  then show ?thesis
    by (simp only: sint_eq_uint_small uint_extended_offset)
qed

text \<open>
  C5. \<open>defineExtendedWindow\<close> succeeds for every 16-bit descriptor \<open>D\<close>: the window index
  \<open>D >> 13\<close> is below 8, so the array write is in range; the call sets that window to
  \<open>((D & 0x1FFF) << 7) + 0x10000\<close>, makes it the active one and changes nothing else.
  The sum does not wrap: read as a signed 32-bit value it is
  \<open>(D mod 0x2000) * 0x80 + 0x10000\<close>.
\<close>

theorem defineExtendedWindow_succeeds:
  assumes "length (dynamicOffset d) = 8"
  shows "uint (drop_bit 13 D) < 8 \<and>
    defineExtendedWindow D d =
      (None, d\<lparr>dynamicOffset := (dynamicOffset d)[nat (uint (drop_bit 13 D)) :=
                 push_bit 7 (ucast (D AND 0x1FFF)) + 0x10000],
               window := uint (drop_bit 13 D)\<rparr>) \<and>
    sint (push_bit 7 (ucast (D AND 0x1FFF)) + 0x10000 :: int32) =
      (uint D mod 0x2000) * 0x80 + 0x10000"
  using window_index_bound [of D] defineExtendedWindow_eq [OF assms, of D]
    sint_extended_offset [of D]
  by (intro conjI)

theorem defineExtendedWindow_succeeds_witness:
  "length (dynamicOffset (NewDecoder [])) = 8 \<and>
   defineExtendedWindow 0x2001 (NewDecoder []) =
     (None, (NewDecoder [])\<lparr>dynamicOffset :=
        [0x0080, 0x10080, 0x0400, 0x0600, 0x0900, 0x3040, 0x30A0, 0xFF00], window := 1\<rparr>)"
  using defineExtendedWindow_succeeds [of "NewDecoder []" "0x2001"]
  by (simp add: NewDecoder_def init_def initialDynamicOffset_def)

subsection \<open>Reading from a given input\<close>

lemma readByte_Cons:
  "brd d = b # bs \<Longrightarrow> readByte d = (Inr b, d\<lparr>brd := bs, bytesRead := bytesRead d + 1\<rparr>)"
  by (simp add: readByte_def)

lemma readUint16_Nil: "brd d = [] \<Longrightarrow> readUint16 d = (Inl ErrUnexpectedEOF, d)"
  by (simp add: readUint16_def readByte_def unexpectedEOF_def)

lemma readUint16_one:
  "brd d = [b] \<Longrightarrow>
   readUint16 d = (Inl ErrUnexpectedEOF, d\<lparr>brd := [], bytesRead := bytesRead d + 1\<rparr>)"
  by (simp add: readUint16_def readByte_def unexpectedEOF_def)

lemma readUint16_two:
  "brd d = b1 # b2 # bs \<Longrightarrow>
   readUint16 d = (Inr (uint16FromTwoBytes b1 b2), d\<lparr>brd := bs, bytesRead := bytesRead d + 2\<rparr>)"
  by (simp add: readUint16_def readByte_def)

lemma readByte_upd:
  "readByte (d\<lparr>brd := b # bs, bytesRead := n\<rparr>) = (Inr b, d\<lparr>brd := bs, bytesRead := n + 1\<rparr>)"
  by (simp add: readByte_def)

lemma readUint16_upd:
  "readUint16 (d\<lparr>brd := b1 # b2 # bs, bytesRead := n\<rparr>) =
     (Inr (uint16FromTwoBytes b1 b2), d\<lparr>brd := bs, bytesRead := n + 2\<rparr>)"
  by (simp add: readUint16_def readByte_def)

subsection \<open>Window offsets\<close>

lemma fixed_index_bound:
  assumes "\<not> (b :: byte) < fixedThreshold"
  shows "uint (b - fixedThreshold) < 7"
proof -
  from assms have "0xF9 \<le> uint b"
    by (simp add: fixedThreshold_def word_less_def)
  moreover have "uint b < 2 ^ 8" using uint_bounded [of b] by simp
  ultimately show ?thesis
    by (simp add: fixedThreshold_def uint_word_ariths)
qed

text \<open>
  C3, as the claim states it, fails at the offset byte 0x00: \<open>defineWindow\<close> returns
  \<open>ErrIllegalInput\<close> there, not the offset error.
\<close>

theorem defineWindow_zero_counterexample:
  "fst (defineWindow 0 0x00 (NewDecoder [])) = Some ErrIllegalInput \<and>
   \<not> InvalidWindowOffset ErrIllegalInput"
  by (simp add: defineWindow_def InvalidWindowOffset_def)

text \<open>
  C3, amended. For a window index in \<open>[0, 8)\<close>, \<open>defineWindow\<close> fails exactly when the
  offset byte \<open>b\<close> is 0x00, with \<open>ErrIllegalInput\<close>, or lies in
  \<open>[reservedStart, fixedThreshold)\<close>, with the offset error that carries \<open>b\<close>; a failing
  call leaves the decoder as it was. For every other \<open>b\<close> it succeeds, makes the window
  the active one and sets its base offset to \<open>b << 7\<close> when \<open>b < gapThreshold\<close>, to
  \<open>(b << 7) + gapOffset\<close> when \<open>gapThreshold \<le> b < reservedStart\<close>, and to
  \<open>fixedOffset[b - fixedThreshold]\<close> when \<open>b \<ge> fixedThreshold\<close>.
\<close>

theorem defineWindow_offsets:
  assumes "0 \<le> i" and "i < 8" and "length (dynamicOffset d) = 8"
  shows "defineWindow i b d =
     (if b = 0x00 then (Some ErrIllegalInput, d)
      else if reservedStart \<le> b \<and> b < fixedThreshold then (Some (ErrOffset b), d)
      else (None, d\<lparr>dynamicOffset := (dynamicOffset d)[nat i :=
              (if b < gapThreshold then push_bit 7 (ucast b)
               else if b < reservedStart then push_bit 7 (ucast b) + gapOffset
               else fixedOffset ! nat (uint (b - fixedThreshold)))],
            window := i\<rparr>))"
proof -
  have "uint (b - fixedThreshold) < 7" if "\<not> b < fixedThreshold"
    using that by (rule fixed_index_bound)
  moreover have "b < reservedStart" if "b < gapThreshold"
    using that by (simp add: offset_limits word_less_def)
  moreover have "b < fixedThreshold" if "b < reservedStart"
    using that by (simp add: offset_limits word_less_def)
  ultimately show ?thesis
    using assms
    by (auto simp: defineWindow_def arr_set_def arr_get_def fixedOffset_def not_less)
qed

theorem defineWindow_offsets_witness:
  "(0 :: int) \<le> 2 \<and> (2 :: int) < 8 \<and> length (dynamicOffset (NewDecoder [])) = 8 \<and>
   defineWindow 2 0x81 (NewDecoder []) =
     (None, (NewDecoder [])\<lparr>dynamicOffset :=
        [0x0080, 0x00C0, 0xEC80, 0x0600, 0x0900, 0x3040, 0x30A0, 0xFF00], window := 2\<rparr>) \<and>
   defineWindow 2 0xA8 (NewDecoder []) = (Some (ErrOffset 0xA8), NewDecoder [])"
  using defineWindow_offsets [of 2 "NewDecoder []" "0x81"]
    defineWindow_offsets [of 2 "NewDecoder []" "0xA8"]
  by (simp add: NewDecoder_def init_def initialDynamicOffset_def offset_limits gapOffset_def)

subsection \<open>Plain data bytes and quotes\<close>

lemma expandSingleByte_Return:
  "expandSingleByte_body d = (Return r, d') \<Longrightarrow> expandSingleByte d = (r, d')"
  by (subst expandSingleByte.simps) simp

lemma expandSingleByte_Continue:
  "expandSingleByte_body d = (Continue, d') \<Longrightarrow> expandSingleByte d = expandSingleByte d'"
  by (subst expandSingleByte.simps) simp

lemma body_plain:
  assumes "\<not> singleByteTag b" and "brd d = b # rest"
  shows "expandSingleByte_body d =
           (Return (outputChar b 0 (window d) d),
            d\<lparr>brd := rest, bytesRead := bytesRead d + 1\<rparr>)"
  using assms
  by (simp add: expandSingleByte_body_def readByte_Cons singleByteTag_def outputChar_def)

text \<open>
  C4, as the claim states it, fails for a plain byte below 0x80 when the active window is
  not window 0: after \<open>SC1\<close> the byte 0x41 decodes to U+0041, through static window 0, and
  not to \<open>staticOffset[1] + 0x41\<close>, which is U+00C1.
\<close>

theorem plain_byte_counterexample:
  "fst (expandSingleByte (NewDecoder [SC1, 0x41])) = Inr 0x41 \<and>
   window (snd (expandSingleByte (NewDecoder [SC1, 0x41]))) = 1 \<and>
   fst (expandSingleByte (NewDecoder [SC1, 0x41])) \<noteq> Inr (ucast (0x41 :: byte) + staticOffset ! 1)"
  by code_simp

text \<open>
  C4, amended. In single-byte mode a byte \<open>b\<close> that is no command decodes, when
  \<open>b \<ge> 0x80\<close>, to \<open>dynamicOffset[window] + (b - 0x80)\<close> for the active window, and when
  \<open>b < 0x80\<close> to \<open>staticOffset[0] + b\<close>, whatever the active window is; one byte is
  consumed and the rest of the decoder is unchanged.
\<close>

theorem plain_byte:
  assumes "\<not> singleByteTag b" and "brd d = b # rest"
    and "0 \<le> window d" and "window d < 8" and "length (dynamicOffset d) = 8"
  shows "expandSingleByte d =
     (Inr (if b < 0x80 then ucast b + staticOffset ! 0
           else (ucast b - 0x80) + dynamicOffset d ! nat (window d)),
      d\<lparr>brd := rest, bytesRead := bytesRead d + 1\<rparr>)"
proof -
  have "outputChar b 0 (window d) d =
      Inr (if b < 0x80 then ucast b + staticOffset ! 0
           else (ucast b - 0x80) + dynamicOffset d ! nat (window d))"
    using assms(3-5) by (simp add: outputChar_def arr_get_def staticOffset_def)
  with body_plain [OF assms(1,2)] show ?thesis
    by (simp add: expandSingleByte_Return)
qed

theorem plain_byte_witness:
  "\<not> singleByteTag 0xA1 \<and> \<not> singleByteTag 0x41 \<and>
   expandSingleByte ((NewDecoder [0xA1, 0x41])\<lparr>window := 2\<rparr>) =
     (Inr 0x421, (NewDecoder [0xA1, 0x41])\<lparr>window := 2, brd := [0x41], bytesRead := 1\<rparr>) \<and>
   expandSingleByte ((NewDecoder [0x41])\<lparr>window := 2\<rparr>) =
     (Inr 0x41, (NewDecoder [0x41])\<lparr>window := 2, brd := [], bytesRead := 1\<rparr>)"
  using plain_byte [of "0xA1" "(NewDecoder [0xA1, 0x41])\<lparr>window := 2\<rparr>" "[0x41]"]
    plain_byte [of "0x41" "(NewDecoder [0x41])\<lparr>window := 2\<rparr>" "[]"]
  by (simp add: singleByteTag_def single_byte_tags NewDecoder_def init_def initialDynamicOffset_def
      staticOffset_def)

lemma body_quote:
  assumes "b \<in> set [SQ0, SQ1, SQ2, SQ3, SQ4, SQ5, SQ6, SQ7]" and "brd d = b # b' # rest"
  shows "expandSingleByte_body d =
           (Return (outputChar b' (uint b - uint SQ0) (uint b - uint SQ0) d),
            d\<lparr>brd := rest, bytesRead := bytesRead d + 2\<rparr>)"
  using assms
  by (simp add: expandSingleByte_body_def readByte_Cons Let_def outputChar_def)

text \<open>
  C8. After the quote command \<open>SQn\<close> the next byte \<open>b\<close>, whatever its value, decodes to
  \<open>staticOffset[n] + b\<close> when \<open>b < 0x80\<close> and to \<open>dynamicOffset[n] + (b - 0x80)\<close> otherwise.
  The call consumes the two bytes and leaves the active window, the mode and every window
  offset as they were.
\<close>

theorem quote_leaves_state:
  assumes "n < 8" and "brd d = (SQ0 + of_nat n) # b # rest"
    and "length (dynamicOffset d) = 8"
  shows "expandSingleByte d =
     (Inr (if b < 0x80 then ucast b + staticOffset ! n
           else (ucast b - 0x80) + dynamicOffset d ! n),
      d\<lparr>brd := rest, bytesRead := bytesRead d + 2\<rparr>)"
proof -
  from assms(1) have n: "n \<in> {0, 1, 2, 3, 4, 5, 6, 7}" by auto
  then have tag: "SQ0 + of_nat n \<in> set [SQ0, SQ1, SQ2, SQ3, SQ4, SQ5, SQ6, SQ7]"
    by (auto simp: single_byte_tags)
  from n have idx: "uint (SQ0 + of_nat n) - uint SQ0 = int n"
    by (auto simp: single_byte_tags)
  have "outputChar b (int n) (int n) d =
      Inr (if b < 0x80 then ucast b + staticOffset ! n
           else (ucast b - 0x80) + dynamicOffset d ! n)"
    using assms(1,3) by (simp add: outputChar_def arr_get_def staticOffset_def)
  with body_quote [OF tag assms(2)] idx show ?thesis
    by (simp add: expandSingleByte_Return)
qed

theorem quote_leaves_state_witness:
  "(3 :: nat) < 8 \<and>
   expandSingleByte ((NewDecoder [0x04, 0x10, 0x41])\<lparr>window := 2\<rparr>) =
     (Inr 0x310, (NewDecoder [0x04, 0x10, 0x41])\<lparr>window := 2, brd := [0x41], bytesRead := 2\<rparr>)"
  using quote_leaves_state [of 3 "(NewDecoder [0x04, 0x10, 0x41])\<lparr>window := 2\<rparr>" "0x10" "[0x41]"]
  by (simp add: single_byte_tags NewDecoder_def init_def initialDynamicOffset_def staticOffset_def)

subsection \<open>End of input\<close>

lemma readRune_Inl:
  "(if unicodeMode d then expandUnicode d else expandSingleByte d) = (Inl e, d') \<Longrightarrow>
   readRune d = (Inl e, d')"
  by (subst readRune.simps) simp

lemma readRune_eof: "brd d = [] \<Longrightarrow> readRune d = (Inl EOF, d)"
  by (rule readRune_Inl) (simp add: expandUnicode_eof expandSingleByte_eof)

lemma ReadString_loop_Inl:
  "readRune d = (Inl e, d') \<Longrightarrow>
   ReadString_loop sb d = (if e = EOF then (Inr sb, d') else (Inl e, d'))"
  by (subst ReadString_loop.simps) simp

lemma ReadString_loop_Inr:
  "readRune d = (Inr r, d') \<Longrightarrow> ReadString_loop sb d = ReadString_loop (WriteRune sb r) d'"
  by (subst ReadString_loop.simps) simp

text \<open>
  C9. Decoding no bytes gives the empty string and no error; and whenever the loop of
  \<open>ReadString\<close> finds no input left at the start of a rune, it returns the string built
  so far and no error.
\<close>

theorem clean_end_of_input:
  "Decode [] = Inr [] \<and>
   (brd d = [] \<longrightarrow> ReadString_loop sb d = (Inr sb, d) \<and> ReadString d = (Inr [], d))"
proof -
  have "ReadString_loop sb' d' = (Inr sb', d')" if "brd d' = []" for sb' d'
    using readRune_eof [OF that] by (simp add: ReadString_loop_Inl)
  then show ?thesis
    by (simp add: Decode_def ReadString_def NewDecoder_def init_def)
qed

theorem clean_end_of_input_witness:
  "brd ((NewDecoder [0x41])\<lparr>brd := []\<rparr>) = [] \<and>
   ReadString_loop [0x41] ((NewDecoder [0x41])\<lparr>brd := []\<rparr>) =
     (Inr [0x41], (NewDecoder [0x41])\<lparr>brd := []\<rparr>)"
  using clean_end_of_input [of "(NewDecoder [0x41])\<lparr>brd := []\<rparr>" "[0x41]"]
  by simp

subsection \<open>Truncated input\<close>

lemma length_less_2: "length xs < 2 \<longleftrightarrow> xs = [] \<or> (\<exists>x. xs = [x])"
  by (cases xs; cases "tl xs") auto

lemma expandSingleByte_truncated:
  assumes "truncated False (brd d)"
  shows "fst (expandSingleByte d) = Inl ErrUnexpectedEOF"
proof -
  from assms obtain t rest where bs: "brd d = t # rest"
    and len: "length rest < trailingBytes False (t # rest)"
    by (cases "brd d") (auto simp: truncated_def)
  let ?d1 = "d\<lparr>brd := rest, bytesRead := bytesRead d + 1\<rparr>"
  have rb: "readByte d = (Inr t, ?d1)"
    using bs by (rule readByte_Cons)
  have d1: "brd ?d1 = rest" by simp
  consider (q) "t \<in> set [SQ0, SQ1, SQ2, SQ3, SQ4, SQ5, SQ6, SQ7]" "rest = []"
    | (d) "t \<in> set [SD0, SD1, SD2, SD3, SD4, SD5, SD6, SD7]"
          "t \<notin> set [SQ0, SQ1, SQ2, SQ3, SQ4, SQ5, SQ6, SQ7]" "t \<noteq> SDX" "rest = []"
    | (x) "t = SDX \<or> t = SQU" "length rest < 2"
    using len by (auto simp: trailingBytes_def split: if_splits)
  then have "\<exists>d'. expandSingleByte_body d = (Return (Inl ErrUnexpectedEOF), d')"
  proof cases
    case q
    then show ?thesis
      unfolding expandSingleByte_body_def rb
      by (simp add: readByte_def unexpectedEOF_def Let_def del: set_simps)
  next
    case d
    then show ?thesis
      unfolding expandSingleByte_body_def rb
      by (simp add: readByte_def unexpectedEOF_def Let_def del: set_simps)
  next
    case x
    from x(2) have "\<exists>d'. readUint16 ?d1 = (Inl ErrUnexpectedEOF, d')"
      unfolding length_less_2 using readUint16_Nil [of ?d1] readUint16_one [of ?d1]
      by auto
    with x(1) show ?thesis
      unfolding expandSingleByte_body_def rb
      by (auto simp: unexpectedEOF_def single_byte_tags)
  qed
  then show ?thesis
    by (auto simp: expandSingleByte_Return)
qed

lemma expandUnicode_truncated:
  assumes "truncated True (brd d)"
  shows "fst (expandUnicode d) = Inl ErrUnexpectedEOF"
proof -
  from assms obtain t rest where bs: "brd d = t # rest"
    and len: "length rest < trailingBytes True (t # rest)"
    by (cases "brd d") (auto simp: truncated_def)
  let ?d1 = "d\<lparr>brd := rest, bytesRead := bytesRead d + 1\<rparr>"
  have rb: "readByte d = (Inr t, ?d1)"
    using bs by (rule readByte_Cons)
  have nouc: "\<not> (UC0 \<le> t \<and> t \<le> UC7)"
    using len by (auto simp: trailingBytes_def split: if_splits)
  consider (d) "UD0 \<le> t \<and> t \<le> UD7" "rest = []"
    | (x) "\<not> (UD0 \<le> t \<and> t \<le> UD7)" "t = UDX \<or> t = UQU" "length rest < 2"
    | (u) "\<not> (UD0 \<le> t \<and> t \<le> UD7)" "t \<noteq> UDX" "t \<noteq> UQU" "rest = []"
    | (s) t' rest' where "\<not> (UD0 \<le> t \<and> t \<le> UD7)" "t \<noteq> UDX" "t \<noteq> UQU"
          "rest = t' # rest'" "utf16_IsSurrogate (ucast (uint16FromTwoBytes t t'))"
          "length rest' < 2"
    using len nouc by (auto simp: trailingBytes_def split: if_splits list.splits)
  then show ?thesis
  proof cases
    case d
    with nouc show ?thesis
      unfolding expandUnicode_def rb
      by (simp add: readByte_def unexpectedEOF_def)
  next
    case x
    from x(3) have "\<exists>d'. readUint16 ?d1 = (Inl ErrUnexpectedEOF, d')"
      unfolding length_less_2 using readUint16_Nil [of ?d1] readUint16_one [of ?d1]
      by auto
    with x(1,2) nouc show ?thesis
      unfolding expandUnicode_def rb
      by (auto simp: unexpectedEOF_def unicode_tags)
  next
    case u
    with nouc show ?thesis
      unfolding expandUnicode_def rb
      by (simp add: readByte_def unexpectedEOF_def)
  next
    case s
    let ?d2 = "?d1\<lparr>brd := rest', bytesRead := bytesRead ?d1 + 1\<rparr>"
    have rb2: "readByte ?d1 = (Inr t', ?d2)"
      using s(4) by (simp add: readByte_def)
    from s(6) have "\<exists>d'. readUint16 ?d2 = (Inl ErrUnexpectedEOF, d')"
      unfolding length_less_2 using readUint16_Nil [of ?d2] readUint16_one [of ?d2]
      by auto
    with s(1,2,3,5) nouc show ?thesis
      unfolding expandUnicode_def rb
      by (auto simp: rb2 unexpectedEOF_def Let_def)
  qed
qed

text \<open>
  C6. When the input ends inside a command or a code unit, \<open>readRune\<close>, \<open>ReadRune\<close> and the
  loop of \<open>ReadString\<close> fail with \<open>io.ErrUnexpectedEOF\<close>, which is not \<open>io.EOF\<close>; no rune
  is returned.
\<close>

theorem truncation_detected:
  assumes "truncated (unicodeMode d) (brd d)"
  shows "fst (readRune d) = Inl ErrUnexpectedEOF \<and>
         fst (ReadRune d) = Inl ErrUnexpectedEOF \<and>
         fst (ReadString_loop sb d) = Inl ErrUnexpectedEOF \<and>
         ErrUnexpectedEOF \<noteq> EOF"
proof -
  obtain e d' where
    x: "(if unicodeMode d then expandUnicode d else expandSingleByte d) = (e, d')"
    by (cases "if unicodeMode d then expandUnicode d else expandSingleByte d")
  with assms expandUnicode_truncated [of d] expandSingleByte_truncated [of d]
  have "e = Inl ErrUnexpectedEOF"
    by (auto split: if_splits)
  with x have r: "readRune d = (Inl ErrUnexpectedEOF, d')"
    by (simp add: readRune_Inl)
  then show ?thesis
    by (simp add: ReadString_loop_Inl ReadRune_def)
qed

theorem truncation_detected_witness:
  "truncated False [SD2] \<and> truncated False [SDX, 0x20] \<and> truncated True [0xD8, 0x00, 0xDC] \<and>
   fst (ReadString_loop [] ((NewDecoder [0xD8, 0x00, 0xDC])\<lparr>unicodeMode := True\<rparr>)) =
     Inl ErrUnexpectedEOF"
  using truncation_detected [of "(NewDecoder [0xD8, 0x00, 0xDC])\<lparr>unicodeMode := True\<rparr>" "[]"]
  by (simp add: truncated_def trailingBytes_def single_byte_tags unicode_tags NewDecoder_def
      init_def utf16_IsSurrogate_def uint16FromTwoBytes_def)

subsection \<open>The active window\<close>

lemma readByte_frame:
  "readByte d = (r, d') \<Longrightarrow>
   dynamicOffset d' = dynamicOffset d \<and> window d' = window d \<and> unicodeMode d' = unicodeMode d"
  by (auto simp: readByte_def split: list.splits)

lemma readUint16_frame:
  "readUint16 d = (r, d') \<Longrightarrow>
   dynamicOffset d' = dynamicOffset d \<and> window d' = window d \<and> unicodeMode d' = unicodeMode d"
  by (auto simp: readUint16_def split: prod.splits sum.splits dest!: readByte_frame)

lemma quote_index: 
  "t \<in> set [SQ0, SQ1, SQ2, SQ3, SQ4, SQ5, SQ6, SQ7] \<Longrightarrow>
   0 \<le> uint t - uint SQ0 \<and> uint t - uint SQ0 < 8"
  by (auto simp: single_byte_tags)

lemma define_index: 
  "t \<in> set [SD0, SD1, SD2, SD3, SD4, SD5, SD6, SD7] \<Longrightarrow>
   0 \<le> uint t - uint SD0 \<and> uint t - uint SD0 < 8"
  by (auto simp: single_byte_tags)

lemma change_index: 
  "t \<in> set [SC0, SC1, SC2, SC3, SC4, SC5, SC6, SC7] \<Longrightarrow>
   0 \<le> uint t - uint SC0 \<and> uint t - uint SC0 < 8"
  by (auto simp: single_byte_tags)

lemma unicode_change_index: 
  "UC0 \<le> t \<and> t \<le> UC7 \<Longrightarrow> 0 \<le> uint t - uint UC0 \<and> uint t - uint UC0 < 8"
  by (simp add: unicode_tags word_le_def)

lemma unicode_define_index: 
  "UD0 \<le> t \<and> t \<le> UD7 \<Longrightarrow> 0 \<le> uint t - uint UD0 \<and> uint t - uint UD0 < 8"
  by (simp add: unicode_tags word_le_def)

lemma defineWindow_wellformed:
  assumes "wellformed d" and "0 \<le> i \<and> i < 8" and "defineWindow i b d = (r, d')"
  shows "r \<noteq> Some PanicIndex \<and> wellformed d' \<and> activates d d' \<and>
         (r = None \<longrightarrow> window d' = i) \<and> unicodeMode d' = unicodeMode d"
  using assms fixed_index_bound [of b]
  by (auto simp: defineWindow_def arr_set_def arr_get_def fixedOffset_def wellformed_def
      activates_def nth_list_update split: if_splits)

lemma defineExtendedWindow_wellformed:
  assumes "wellformed d" and "defineExtendedWindow c d = (r, d')"
  shows "r = None \<and> wellformed d' \<and> activates d d' \<and> window d' = uint (drop_bit 13 c)
     \<and> unicodeMode d' = unicodeMode d"
proof -
  obtain k where k: "uint (drop_bit 13 c) = int k"
    using uint_nat [of "drop_bit 13 c"] by blast
  with defineExtendedWindow_eq [of d c] window_index_bound [of c] assms show ?thesis
    by (auto simp: wellformed_def activates_def nth_list_update split: if_splits)
qed

lemma outputChar_no_panic:
  assumes "length (dynamicOffset d) = 8" and "0 \<le> i \<and> i < 8" and "0 \<le> j \<and> j < 8"
  shows "outputChar b i j d \<noteq> Inl PanicIndex"
  using assms by (simp add: outputChar_def arr_get_def staticOffset_def)

lemma readByte_Inl: "readByte d = (Inl e, d') \<Longrightarrow> e = EOF \<and> d' = d"
  by (auto simp: readByte_def split: list.splits)

lemma readUint16_Inl:
  "readUint16 d = (Inl e, d') \<Longrightarrow> e = ErrUnexpectedEOF"
  by (auto simp: readUint16_def readByte_def unexpectedEOF_def
      split: prod.splits sum.splits list.splits)

lemma body_wellformed:
  assumes "wellformed d" and "expandSingleByte_body d = (s, d')"
  shows "s \<noteq> Return (Inl PanicIndex) \<and> wellformed d' \<and> activates d d'"
proof (cases "brd d")
  case Nil
  with assms show ?thesis
    by (auto simp: expandSingleByte_body_eof activates_def)
next
  case (Cons t rest)
  let ?d1 = "d\<lparr>brd := rest, bytesRead := bytesRead d + 1\<rparr>"
  have rb: "readByte d = (Inr t, ?d1)"
    using Cons by (rule readByte_Cons)
  have wf1: "wellformed ?d1"
    using assms(1) by (simp add: wellformed_def)
  have act: "activates d x" if "activates ?d1 x" for x
    using that by (simp add: activates_def)
  consider (q) "t \<in> set [SQ0, SQ1, SQ2, SQ3, SQ4, SQ5, SQ6, SQ7]"
    | (x) "t \<notin> set [SQ0, SQ1, SQ2, SQ3, SQ4, SQ5, SQ6, SQ7]" "t = SDX"
    | (d) "t \<notin> set [SQ0, SQ1, SQ2, SQ3, SQ4, SQ5, SQ6, SQ7]" "t \<noteq> SDX"
          "t \<in> set [SD0, SD1, SD2, SD3, SD4, SD5, SD6, SD7]"
    | (c) "t \<notin> set [SQ0, SQ1, SQ2, SQ3, SQ4, SQ5, SQ6, SQ7]" "t \<noteq> SDX"
          "t \<notin> set [SD0, SD1, SD2, SD3, SD4, SD5, SD6, SD7]"
          "t \<in> set [SC0, SC1, SC2, SC3, SC4, SC5, SC6, SC7]"
    | (o) "t \<notin> set [SQ0, SQ1, SQ2, SQ3, SQ4, SQ5, SQ6, SQ7]" "t \<noteq> SDX"
          "t \<notin> set [SD0, SD1, SD2, SD3, SD4, SD5, SD6, SD7]"
          "t \<notin> set [SC0, SC1, SC2, SC3, SC4, SC5, SC6, SC7]"
    by blast
  then have "s \<noteq> Return (Inl PanicIndex) \<and> wellformed d' \<and> activates ?d1 d'"
  proof cases
    case q
    obtain r2 d2 where r2: "readByte ?d1 = (r2, d2)"
      by (cases "readByte ?d1")
    from readByte_frame [OF r2] wf1 have wf2: "wellformed d2" "activates ?d1 d2"
      by (simp_all add: wellformed_def activates_def)
    from quote_index [OF q] wf2(1)
    have "outputChar b (uint t - uint SQ0) (uint t - uint SQ0) d2 \<noteq> Inl PanicIndex" for b
      by (intro outputChar_no_panic) (simp_all add: wellformed_def)
    with assms(2) q r2 wf2 show ?thesis
      unfolding expandSingleByte_body_def rb
      by (auto simp: Let_def unexpectedEOF_def split: sum.splits dest!: readByte_Inl
          simp del: set_simps)
  next
    case x
    obtain r2 d2 where r2: "readUint16 ?d1 = (r2, d2)"
      by (cases "readUint16 ?d1")
    from readUint16_frame [OF r2] wf1 have wf2: "wellformed d2" "activates ?d1 x = activates d2 x" for x
      by (simp_all add: wellformed_def activates_def)
    show ?thesis
    proof (cases r2)
      case (Inl e)
      with r2 have "e = ErrUnexpectedEOF" by (simp add: readUint16_Inl)
      with assms(2) x r2 Inl wf2 readUint16_frame [OF r2] show ?thesis
        unfolding expandSingleByte_body_def rb
        by (auto simp: unexpectedEOF_def activates_def simp del: set_simps)
    next
      case (Inr c)
      obtain r3 d3 where r3: "defineExtendedWindow c d2 = (r3, d3)"
        by (cases "defineExtendedWindow c d2")
      from defineExtendedWindow_wellformed [OF wf2(1) r3] assms(2) x r2 Inr r3 wf2(2)
      show ?thesis
        unfolding expandSingleByte_body_def rb
        by (auto simp del: set_simps)
    qed
  next
    case d
    obtain r2 d2 where r2: "readByte ?d1 = (r2, d2)"
      by (cases "readByte ?d1")
    from readByte_frame [OF r2] wf1 have wf2: "wellformed d2" "activates ?d1 x = activates d2 x" for x
      by (simp_all add: wellformed_def activates_def)
    show ?thesis
    proof (cases r2)
      case (Inl e)
      with r2 have "e = EOF" "d2 = ?d1" by (auto dest: readByte_Inl)
      with assms(2) d r2 Inl wf1 show ?thesis
        unfolding expandSingleByte_body_def rb
        by (auto simp: unexpectedEOF_def activates_def simp del: set_simps)
    next
      case (Inr b1)
      obtain r3 d3 where r3: "defineWindow (uint t - uint SD0) b1 d2 = (r3, d3)"
        by (cases "defineWindow (uint t - uint SD0) b1 d2")
      from defineWindow_wellformed [OF wf2(1) define_index [OF d(3)] r3] assms(2) d r2 Inr r3 wf2(2)
      show ?thesis
        unfolding expandSingleByte_body_def rb
        by (auto simp del: set_simps split: option.splits)
    qed
  next
    case c
    from change_index [OF c(4)] assms(2) c wf1 show ?thesis
      unfolding expandSingleByte_body_def rb
      by (auto simp: wellformed_def activates_def simp del: set_simps)
  next
    case o
    obtain r2 d2 where r2: "readUint16 ?d1 = (r2, d2)"
      by (cases "readUint16 ?d1")
    from readUint16_frame [OF r2] wf1 have wf2: "wellformed d2" "activates ?d1 d2"
      by (simp_all add: wellformed_def activates_def)
    have np: "r2 \<noteq> Inl PanicIndex"
      using r2 by (cases r2) (auto dest: readUint16_Inl)
    have "outputChar t 0 (window ?d1) ?d1 \<noteq> Inl PanicIndex"
      using wf1 by (intro outputChar_no_panic) (simp_all add: wellformed_def)
    with assms(2) o r2 wf2 wf1 np show ?thesis
      unfolding expandSingleByte_body_def rb
      by (auto simp: wellformed_def activates_def split: if_splits sum.splits simp del: set_simps)
  qed
  with act show ?thesis by simp
qed

lemma expandUnicode_wellformed:
  assumes "wellformed d" and "expandUnicode d = (r, d')"
  shows "r \<noteq> Inl PanicIndex \<and> wellformed d' \<and> activates d d'"
proof (cases "brd d")
  case Nil
  with assms show ?thesis
    by (auto simp: expandUnicode_eof activates_def)
next
  case (Cons t rest)
  let ?d1 = "d\<lparr>brd := rest, bytesRead := bytesRead d + 1\<rparr>"
  have rb: "readByte d = (Inr t, ?d1)"
    using Cons by (rule readByte_Cons)
  have wf1: "wellformed ?d1"
    using assms(1) by (simp add: wellformed_def)
  have act: "activates d x" if "activates ?d1 x" for x
    using that by (simp add: activates_def)
  consider (c) "UC0 \<le> t \<and> t \<le> UC7"
    | (d) "\<not> (UC0 \<le> t \<and> t \<le> UC7)" "UD0 \<le> t \<and> t \<le> UD7"
    | (x) "\<not> (UC0 \<le> t \<and> t \<le> UC7)" "\<not> (UD0 \<le> t \<and> t \<le> UD7)" "t = UDX"
    | (q) "\<not> (UC0 \<le> t \<and> t \<le> UC7)" "\<not> (UD0 \<le> t \<and> t \<le> UD7)" "t \<noteq> UDX" "t = UQU"
    | (u) "\<not> (UC0 \<le> t \<and> t \<le> UC7)" "\<not> (UD0 \<le> t \<and> t \<le> UD7)" "t \<noteq> UDX" "t \<noteq> UQU"
    by blast
  then have "r \<noteq> Inl PanicIndex \<and> wellformed d' \<and> activates ?d1 d'"
  proof cases
    case c
    from unicode_change_index [OF c] c assms(2) wf1 show ?thesis
      unfolding expandUnicode_def rb
      by (auto simp: wellformed_def activates_def)
  next
    case d
    obtain r2 d2 where r2: "readByte ?d1 = (r2, d2)"
      by (cases "readByte ?d1")
    from readByte_frame [OF r2] wf1
    have wf2: "wellformed (d2\<lparr>unicodeMode := False\<rparr>)"
      "activates ?d1 x = activates (d2\<lparr>unicodeMode := False\<rparr>) x" for x
      by (simp_all add: wellformed_def activates_def)
    show ?thesis
    proof (cases r2)
      case (Inl e)
      with r2 have "e = EOF" "d2 = ?d1" by (auto dest: readByte_Inl)
      with assms(2) d r2 Inl wf1 show ?thesis
        unfolding expandUnicode_def rb
        by (auto simp: unexpectedEOF_def activates_def)
    next
      case (Inr b1)
      obtain r3 d3 where
        r3: "defineWindow (uint t - uint UD0) b1 (d2\<lparr>unicodeMode := False\<rparr>) = (r3, d3)"
        by (cases "defineWindow (uint t - uint UD0) b1 (d2\<lparr>unicodeMode := False\<rparr>)")
      from defineWindow_wellformed [OF wf2(1) unicode_define_index [OF d(2)] r3]
        assms(2) d r2 Inr r3 wf2(2)
      show ?thesis
        unfolding expandUnicode_def rb
        by (auto split: option.splits)
    qed
  next
    case x
    obtain r2 d2 where r2: "readUint16 ?d1 = (r2, d2)"
      by (cases "readUint16 ?d1")
    from readUint16_frame [OF r2] wf1
    have wf2: "wellformed d2" "activates ?d1 x = activates d2 x" for x
      by (simp_all add: wellformed_def activates_def)
    show ?thesis
    proof (cases r2)
      case (Inl e)
      with r2 have "e = ErrUnexpectedEOF" by (simp add: readUint16_Inl)
      with assms(2) x r2 Inl wf2 readUint16_frame [OF r2] show ?thesis
        unfolding expandUnicode_def rb
        by (auto simp: unexpectedEOF_def activates_def)
    next
      case (Inr c)
      obtain r3 d3 where r3: "defineExtendedWindow c d2 = (r3, d3)"
        by (cases "defineExtendedWindow c d2")
      from defineExtendedWindow_wellformed [OF wf2(1) r3] assms(2) x r2 Inr r3 wf2(2)
      show ?thesis
        unfolding expandUnicode_def rb
        by (auto simp: wellformed_def activates_def)
    qed
  next
    case q
    obtain r2 d2 where r2: "readUint16 ?d1 = (r2, d2)"
      by (cases "readUint16 ?d1")
    from readUint16_frame [OF r2] wf1 have wf2: "wellformed d2" "activates ?d1 d2"
      by (simp_all add: wellformed_def activates_def)
    have np: "r2 \<noteq> Inl PanicIndex"
      using r2 by (cases r2) (auto dest: readUint16_Inl)
    with assms(2) q r2 wf2 show ?thesis
      unfolding expandUnicode_def rb
      by (auto split: sum.splits)
  next
    case u
    obtain r2 d2 where r2: "readByte ?d1 = (r2, d2)"
      by (cases "readByte ?d1")
    from readByte_frame [OF r2] wf1 have wf2: "wellformed d2" "activates ?d1 d2"
      by (simp_all add: wellformed_def activates_def)
    obtain r3 d3 where r3: "readUint16 d2 = (r3, d3)"
      by (cases "readUint16 d2")
    from readUint16_frame [OF r3] readByte_frame [OF r2] wf1
    have wf3: "wellformed d3" "activates ?d1 d3"
      by (simp_all add: wellformed_def activates_def)
    have np: "r3 \<noteq> Inl PanicIndex"
      using r3 by (cases r3) (auto dest: readUint16_Inl)
    with assms(2) u r2 r3 wf2 wf3 show ?thesis
      unfolding expandUnicode_def rb
      by (auto simp: Let_def unexpectedEOF_def split: sum.splits if_splits dest!: readByte_Inl)
  qed
  with act show ?thesis by simp
qed

lemma expandSingleByte_wellformed:
  "wellformed d \<Longrightarrow> expandSingleByte d = (r, d') \<Longrightarrow> r \<noteq> Inl PanicIndex \<and> wellformed d'"
proof (induction d rule: expandSingleByte.induct)
  case (1 d)
  obtain s d1 where b: "expandSingleByte_body d = (s, d1)"
    by (cases "expandSingleByte_body d")
  from body_wellformed [OF "1.prems"(1) b]
  have s: "s \<noteq> Return (Inl PanicIndex)" and wf1: "wellformed d1"
    by simp_all
  show ?case
  proof (cases s)
    case Continue
    with b "1.prems"(2) have "expandSingleByte d1 = (r, d')"
      by (simp add: expandSingleByte_Continue)
    with "1.IH" [of Continue d1] b Continue wf1 show ?thesis
      by simp
  next
    case (Return x)
    with b "1.prems"(2) s wf1 show ?thesis
      by (auto simp: expandSingleByte_Return)
  qed
qed

lemma readRune_wellformed:
  "wellformed d \<Longrightarrow> readRune d = (r, d') \<Longrightarrow> r \<noteq> Inl PanicIndex \<and> wellformed d'"
proof (induction d rule: readRune.induct)
  case (1 d)
  obtain x y where
    e: "(if unicodeMode d then expandUnicode d else expandSingleByte d) = (x, y)"
    by (cases "if unicodeMode d then expandUnicode d else expandSingleByte d")
  with "1.prems"(1) expandUnicode_wellformed [of d x y] expandSingleByte_wellformed [of d x y]
  have x: "x \<noteq> Inl PanicIndex" and wfy: "wellformed y"
    by (auto split: if_splits)
  show ?case
  proof (cases x)
    case (Inl err)
    with e "1.prems"(2) x wfy show ?thesis
      by (auto simp: readRune_Inl)
  next
    case (Inr c)
    show ?thesis
    proof (cases "c = - 1")
      case True
      with e Inr "1.prems"(2) have "readRune y = (r, d')"
        by (subst (asm) readRune.simps) simp
      with wfy show ?thesis
        by (rule "1.IH" [OF e [symmetric] Inr True])
    next
      case False
      with e Inr "1.prems"(2) wfy show ?thesis
        by (subst (asm) readRune.simps) auto
    qed
  qed
qed

lemma ReadString_loop_wellformed:
  "wellformed d \<Longrightarrow> ReadString_loop sb d = (r, d') \<Longrightarrow>
   r \<noteq> Inl PanicIndex \<and> wellformed d'"
proof (induction sb d rule: ReadString_loop.induct)
  case (1 sb d)
  obtain x y where e: "readRune d = (x, y)"
    by (cases "readRune d")
  from readRune_wellformed [OF "1.prems"(1) e]
  have x: "x \<noteq> Inl PanicIndex" and wfy: "wellformed y"
    by simp_all
  show ?case
  proof (cases x)
    case (Inl err)
    with e "1.prems"(2) x wfy show ?thesis
      by (auto simp: ReadString_loop_Inl split: if_splits)
  next
    case (Inr c)
    with e "1.prems"(2) have "ReadString_loop (WriteRune sb c) y = (r, d')"
      by (simp add: ReadString_loop_Inr)
    with wfy show ?thesis
      by (rule "1.IH" [OF e [symmetric] Inr])
  qed
qed

lemma wellformed_NewDecoder: "wellformed (NewDecoder bs)"
  by (simp add: wellformed_def NewDecoder_def init_def initialDynamicOffset_def)

subsection \<open>Invariant and safety\<close>

lemma define_commands_activate:
  assumes "wellformed d"
  shows "t \<in> set [SD0, SD1, SD2, SD3, SD4, SD5, SD6, SD7] \<and> brd d = t # rest \<and>
       fst (expandSingleByte_body d) = Continue \<longrightarrow>
         window (snd (expandSingleByte_body d)) = uint t - uint SD0"
    and "brd d = SDX # h # l # rest \<longrightarrow>
       fst (expandSingleByte_body d) = Continue \<and>
       window (snd (expandSingleByte_body d)) = uint (drop_bit 13 (uint16FromTwoBytes h l))"
    and "UD0 \<le> t \<and> t \<le> UD7 \<and> brd d = t # rest \<and> fst (expandUnicode d) = Inr (- 1) \<longrightarrow>
       window (snd (expandUnicode d)) = uint t - uint UD0"
    and "brd d = UDX # h # l # rest \<longrightarrow>
       fst (expandUnicode d) = Inr (- 1) \<and>
       window (snd (expandUnicode d)) = uint (drop_bit 13 (uint16FromTwoBytes h l))"
proof -
  show "t \<in> set [SD0, SD1, SD2, SD3, SD4, SD5, SD6, SD7] \<and> brd d = t # rest \<and>
       fst (expandSingleByte_body d) = Continue \<longrightarrow>
         window (snd (expandSingleByte_body d)) = uint t - uint SD0"
  proof (intro impI, elim conjE)
    assume t: "t \<in> set [SD0, SD1, SD2, SD3, SD4, SD5, SD6, SD7]" and bs: "brd d = t # rest"
      and c: "fst (expandSingleByte_body d) = Continue"
    let ?d1 = "d\<lparr>brd := rest, bytesRead := bytesRead d + 1\<rparr>"
    from t have nt: "t \<notin> set [SQ0, SQ1, SQ2, SQ3, SQ4, SQ5, SQ6, SQ7]" "t \<noteq> SDX"
      by (auto simp: single_byte_tags)
    obtain r2 d2 where r2: "readByte ?d1 = (r2, d2)"
      by (cases "readByte ?d1")
    from readByte_frame [OF r2] assms have wf2: "wellformed d2"
      by (simp add: wellformed_def)
    show "window (snd (expandSingleByte_body d)) = uint t - uint SD0"
    proof (cases r2)
      case (Inl e)
      with c t nt r2 show ?thesis
        by (simp add: expandSingleByte_body_def readByte_Cons [OF bs] del: set_simps)
    next
      case (Inr x)
      obtain r3 d3 where r3: "defineWindow (uint t - uint SD0) x d2 = (r3, d3)"
        by (cases "defineWindow (uint t - uint SD0) x d2")
      from defineWindow_wellformed [OF wf2 define_index [OF t] r3] c t nt r2 Inr r3
      show ?thesis
        by (auto simp: expandSingleByte_body_def readByte_Cons [OF bs] split: option.splits
            simp del: set_simps)
    qed
  qed
  show "brd d = SDX # h # l # rest \<longrightarrow>
       fst (expandSingleByte_body d) = Continue \<and>
       window (snd (expandSingleByte_body d)) = uint (drop_bit 13 (uint16FromTwoBytes h l))"
  proof
    assume bs: "brd d = SDX # h # l # rest"
    let ?d1 = "d\<lparr>brd := h # l # rest, bytesRead := bytesRead d + 1\<rparr>"
    have len: "length (dynamicOffset d) = 8"
      using assms by (simp add: wellformed_def)
    show "fst (expandSingleByte_body d) = Continue \<and>
       window (snd (expandSingleByte_body d)) = uint (drop_bit 13 (uint16FromTwoBytes h l))"
      by (simp add: expandSingleByte_body_def readByte_Cons [OF bs] readUint16_upd
          defineExtendedWindow_eq len) (simp add: single_byte_tags)
  qed
  show "UD0 \<le> t \<and> t \<le> UD7 \<and> brd d = t # rest \<and> fst (expandUnicode d) = Inr (- 1) \<longrightarrow>
       window (snd (expandUnicode d)) = uint t - uint UD0"
  proof (intro impI, elim conjE)
    assume t: "UD0 \<le> t" "t \<le> UD7" and bs: "brd d = t # rest"
      and c: "fst (expandUnicode d) = Inr (- 1)"
    let ?d1 = "d\<lparr>brd := rest, bytesRead := bytesRead d + 1\<rparr>"
    from t have nt: "\<not> (UC0 \<le> t \<and> t \<le> UC7)"
      by (auto simp: unicode_tags word_le_nat_alt)
    obtain r2 d2 where r2: "readByte ?d1 = (r2, d2)"
      by (cases "readByte ?d1")
    from readByte_frame [OF r2] assms have wf2: "wellformed (d2\<lparr>unicodeMode := False\<rparr>)"
      by (simp add: wellformed_def)
    show "window (snd (expandUnicode d)) = uint t - uint UD0"
    proof (cases r2)
      case (Inl e)
      with c t nt r2 show ?thesis
        by (auto simp: expandUnicode_def readByte_Cons [OF bs])
    next
      case (Inr x)
      obtain r3 d3 where
        r3: "defineWindow (uint t - uint UD0) x (d2\<lparr>unicodeMode := False\<rparr>) = (r3, d3)"
        by (cases "defineWindow (uint t - uint UD0) x (d2\<lparr>unicodeMode := False\<rparr>)")
      from defineWindow_wellformed [OF wf2 unicode_define_index r3] c t nt r2 Inr r3
      show ?thesis
        by (auto simp: expandUnicode_def readByte_Cons [OF bs] split: option.splits)
    qed
  qed
  show "brd d = UDX # h # l # rest \<longrightarrow>
       fst (expandUnicode d) = Inr (- 1) \<and>
       window (snd (expandUnicode d)) = uint (drop_bit 13 (uint16FromTwoBytes h l))"
  proof
    assume bs: "brd d = UDX # h # l # rest"
    have len: "length (dynamicOffset d) = 8"
      using assms by (simp add: wellformed_def)
    show "fst (expandUnicode d) = Inr (- 1) \<and>
       window (snd (expandUnicode d)) = uint (drop_bit 13 (uint16FromTwoBytes h l))"
      by (simp add: expandUnicode_def readByte_Cons [OF bs] readUint16_upd
          defineExtendedWindow_eq len) (simp add: unicode_tags)
  qed
qed

text \<open>
  C7. A new decoder is wellformed, and every operation keeps a wellformed decoder
  wellformed: one window index in \<open>[0, 8)\<close> is active throughout. One command of
  single-byte mode (a pass through the loop of \<open>expandSingleByte\<close>) and one of unicode mode
  (\<open>expandUnicode\<close>) change the offset of no window but the one they leave active. A
  successful \<open>defineWindow\<close> leaves the window it defined active, and so does
  \<open>defineExtendedWindow\<close>, which always succeeds; so after \<open>SDn\<close> or \<open>UDn\<close> with a legal offset
  byte window \<open>n\<close> is active, and after \<open>SDX\<close> or \<open>UDX\<close> the window that the top three bits of
  the descriptor name.
\<close>

theorem window_defined_is_active:
  assumes "wellformed d"
  shows "wellformed (NewDecoder bs) \<and>
    wellformed (snd (expandSingleByte_body d)) \<and> activates d (snd (expandSingleByte_body d)) \<and>
    wellformed (snd (expandUnicode d)) \<and> activates d (snd (expandUnicode d)) \<and>
    wellformed (snd (expandSingleByte d)) \<and>
    wellformed (snd (readRune d)) \<and> wellformed (snd (ReadString_loop sb d)) \<and>
    (0 \<le> i \<and> i < 8 \<and> fst (defineWindow i b d) = None \<longrightarrow>
       window (snd (defineWindow i b d)) = i \<and> wellformed (snd (defineWindow i b d))) \<and>
    fst (defineExtendedWindow D d) = None \<and>
    window (snd (defineExtendedWindow D d)) = uint (drop_bit 13 D) \<and>
    wellformed (snd (defineExtendedWindow D d)) \<and>
    (t \<in> set [SD0, SD1, SD2, SD3, SD4, SD5, SD6, SD7] \<and> brd d = t # rest \<and>
       fst (expandSingleByte_body d) = Continue \<longrightarrow>
         window (snd (expandSingleByte_body d)) = uint t - uint SD0) \<and>
    (brd d = SDX # h # l # rest \<longrightarrow>
       fst (expandSingleByte_body d) = Continue \<and>
       window (snd (expandSingleByte_body d)) = uint (drop_bit 13 (uint16FromTwoBytes h l))) \<and>
    (UD0 \<le> t \<and> t \<le> UD7 \<and> brd d = t # rest \<and> fst (expandUnicode d) = Inr (- 1) \<longrightarrow>
       window (snd (expandUnicode d)) = uint t - uint UD0) \<and>
    (brd d = UDX # h # l # rest \<longrightarrow>
       fst (expandUnicode d) = Inr (- 1) \<and>
       window (snd (expandUnicode d)) = uint (drop_bit 13 (uint16FromTwoBytes h l)))"
proof -
  have "wellformed (snd (expandSingleByte_body d)) \<and> activates d (snd (expandSingleByte_body d))"
    using body_wellformed [OF assms, of "fst (expandSingleByte_body d)" "snd (expandSingleByte_body d)"]
    by simp
  moreover have "wellformed (snd (expandUnicode d)) \<and> activates d (snd (expandUnicode d))"
    using expandUnicode_wellformed [OF assms, of "fst (expandUnicode d)" "snd (expandUnicode d)"]
    by simp
  moreover have "wellformed (snd (expandSingleByte d))"
    using expandSingleByte_wellformed [OF assms, of "fst (expandSingleByte d)"
        "snd (expandSingleByte d)"]
    by simp
  moreover have "wellformed (snd (readRune d))"
    using readRune_wellformed [OF assms, of "fst (readRune d)" "snd (readRune d)"]
    by simp
  moreover have "wellformed (snd (ReadString_loop sb d))"
    using ReadString_loop_wellformed [OF assms, of sb "fst (ReadString_loop sb d)"
        "snd (ReadString_loop sb d)"]
    by simp
  moreover have "window (snd (defineWindow i b d)) = i \<and> wellformed (snd (defineWindow i b d))"
    if "0 \<le> i \<and> i < 8" and "fst (defineWindow i b d) = None"
    using defineWindow_wellformed [OF assms that(1), of b "fst (defineWindow i b d)"
        "snd (defineWindow i b d)"] that(2)
    by (simp add: prod_eq_iff)
  moreover have "fst (defineExtendedWindow D d) = None \<and>
    window (snd (defineExtendedWindow D d)) = uint (drop_bit 13 D) \<and>
    wellformed (snd (defineExtendedWindow D d))"
    using defineExtendedWindow_wellformed [OF assms, of D "fst (defineExtendedWindow D d)"
        "snd (defineExtendedWindow D d)"]
    by simp
  ultimately show ?thesis
    using wellformed_NewDecoder [of bs]
      define_commands_activate(1) [OF assms, of t rest]
      define_commands_activate(2) [OF assms, of h l rest]
      define_commands_activate(3) [OF assms, of t rest]
      define_commands_activate(4) [OF assms, of h l rest]
    by blast
qed

theorem window_defined_is_active_witness:
  "wellformed (NewDecoder [SD3, 0x08, SC1]) \<and>
   snd (expandSingleByte_body (NewDecoder [SD3, 0x08, SC1])) =
     (NewDecoder [SD3, 0x08, SC1])\<lparr>dynamicOffset :=
        [0x0080, 0x00C0, 0x0400, 0x0400, 0x0900, 0x3040, 0x30A0, 0xFF00], window := 3,
        brd := [SC1], bytesRead := 2\<rparr> \<and>
   activates (NewDecoder [SD3, 0x08, SC1]) (snd (expandSingleByte_body (NewDecoder [SD3, 0x08, SC1])))"
proof -
  have h: "wellformed (NewDecoder [SD3, 0x08, SC1])"
    by (rule wellformed_NewDecoder)
  have v: "snd (expandSingleByte_body (NewDecoder [SD3, 0x08, SC1])) =
     (NewDecoder [SD3, 0x08, SC1])\<lparr>dynamicOffset :=
        [0x0080, 0x00C0, 0x0400, 0x0400, 0x0900, 0x3040, 0x30A0, 0xFF00], window := 3,
        brd := [SC1], bytesRead := 2\<rparr>"
    by code_simp
  from window_defined_is_active [OF h, where bs = "[]" and sb = "[]" and i = 3 and b = "0x08"
      and D = "0x2001" and t = SD3 and rest = "[0x08, SC1]" and h = 0 and l = 0]
    h v show ?thesis
    by simp
qed

text \<open>
  C10. Every window index the decoder computes from a command byte or from an extended
  descriptor lies in \<open>[0, 8)\<close>. So from a wellformed decoder, and so from a new one on any
  input, no array is read or written out of range: \<open>readRune\<close>, \<open>ReadRune\<close>, \<open>ReadString\<close> and
  \<open>Decode\<close> return a value or an error and never the index panic.
\<close>

theorem decoder_never_panics:
  assumes "wellformed d"
  shows "fst (readRune d) \<noteq> Inl PanicIndex \<and> fst (ReadRune d) \<noteq> Inl PanicIndex \<and>
    fst (ReadString d) \<noteq> Inl PanicIndex \<and> Decode bs \<noteq> Inl PanicIndex \<and>
    (t \<in> set [SQ0, SQ1, SQ2, SQ3, SQ4, SQ5, SQ6, SQ7] \<longrightarrow>
       0 \<le> uint t - uint SQ0 \<and> uint t - uint SQ0 < 8) \<and>
    (t \<in> set [SC0, SC1, SC2, SC3, SC4, SC5, SC6, SC7] \<longrightarrow>
       0 \<le> uint t - uint SC0 \<and> uint t - uint SC0 < 8) \<and>
    (t \<in> set [SD0, SD1, SD2, SD3, SD4, SD5, SD6, SD7] \<longrightarrow>
       0 \<le> uint t - uint SD0 \<and> uint t - uint SD0 < 8) \<and>
    (UC0 \<le> t \<and> t \<le> UC7 \<longrightarrow> 0 \<le> uint t - uint UC0 \<and> uint t - uint UC0 < 8) \<and>
    (UD0 \<le> t \<and> t \<le> UD7 \<longrightarrow> 0 \<le> uint t - uint UD0 \<and> uint t - uint UD0 < 8) \<and>
    0 \<le> uint (drop_bit 13 D) \<and> uint (drop_bit 13 (D :: uint16)) < 8"
proof -
  have r: "fst (readRune d) \<noteq> Inl PanicIndex"
    using readRune_wellformed [OF assms, of "fst (readRune d)" "snd (readRune d)"]
    by simp
  then have "fst (ReadRune d) \<noteq> Inl PanicIndex"
    by (simp add: ReadRune_def Let_def split_beta)
  moreover have "fst (ReadString d) \<noteq> Inl PanicIndex"
    using ReadString_loop_wellformed [OF assms, of "[]" "fst (ReadString d)" "snd (ReadString d)"]
    by (simp add: ReadString_def)
  moreover have "Decode bs \<noteq> Inl PanicIndex"
    using ReadString_loop_wellformed [OF wellformed_NewDecoder, of "[]" bs
        "fst (ReadString (NewDecoder bs))" "snd (ReadString (NewDecoder bs))"]
    by (simp add: ReadString_def Decode_def)
  ultimately show ?thesis
    using r quote_index [of t] change_index [of t] define_index [of t]
      unicode_change_index [of t] unicode_define_index [of t] window_index_bound [of D]
    by (intro conjI impI) simp_all
qed

theorem decoder_never_panics_witness:
  "wellformed ((NewDecoder [SDX, 0xFF, 0xFF, 0xFF])\<lparr>window := 7\<rparr>) \<and>
   fst (readRune ((NewDecoder [SDX, 0xFF, 0xFF, 0xFF])\<lparr>window := 7\<rparr>)) = Inr 0x10FFFF \<and>
   fst (ReadString ((NewDecoder [SDX, 0xFF, 0xFF, 0xFF])\<lparr>window := 7\<rparr>)) \<noteq> Inl PanicIndex \<and>
   SQ7 \<in> set [SQ0, SQ1, SQ2, SQ3, SQ4, SQ5, SQ6, SQ7] \<and> uint SQ7 - uint SQ0 = 7"
proof -
  have h: "wellformed ((NewDecoder [SDX, 0xFF, 0xFF, 0xFF])\<lparr>window := 7\<rparr>)"
    by (simp add: wellformed_def NewDecoder_def init_def initialDynamicOffset_def)
  have v: "fst (readRune ((NewDecoder [SDX, 0xFF, 0xFF, 0xFF])\<lparr>window := 7\<rparr>)) = Inr 0x10FFFF"
    by code_simp
  have t: "SQ7 \<in> set [SQ0, SQ1, SQ2, SQ3, SQ4, SQ5, SQ6, SQ7] \<and> uint SQ7 - uint SQ0 = 7"
    by (simp add: single_byte_tags)
  from decoder_never_panics [OF h, of "[]" SQ7 0] h v t show ?thesis
    by simp
qed

subsection \<open>Surrogate pairs\<close>

text \<open>
  C2. In unicode mode a high surrogate followed by a unit that is a surrogate, but not a
  low one, is not refused: \<open>expandUnicode\<close> only asks whether the second unit is a
  surrogate, and \<open>utf16.DecodeRune\<close> then gives U+FFFD. The input SCU, D800, D800 decodes
  to the string of U+FFFD with no error.
\<close>

theorem high_surrogate_pair_accepted:
  "expandUnicode ((NewDecoder [0xD8, 0x00, 0xD8, 0x00])\<lparr>unicodeMode := True\<rparr>) =
     (Inr 0xFFFD, (NewDecoder [0xD8, 0x00, 0xD8, 0x00])\<lparr>unicodeMode := True, brd := [],
        bytesRead := 4\<rparr>) \<and>
   Decode [SCU, 0xD8, 0x00, 0xD8, 0x00] = Inr [0xEF, 0xBF, 0xBD]"
  by code_simp

section \<open>The round trip\<close>

subsection \<open>Words as numbers\<close>

lemma unat_ucast_up:
  "LENGTH('a :: len) \<le> LENGTH('b :: len) \<Longrightarrow> unat (ucast (x :: 'a word) :: 'b word) = unat x"
  by (simp add: unsigned_ucast_eq take_bit_nat_eq_self_iff
      order_less_le_trans [OF unsigned_less])

lemma unat_ucast_down:
  "unat (ucast (x :: 'a :: len word) :: 'b :: len word) = unat x mod 2 ^ LENGTH('b)"
  by (simp add: unsigned_ucast_eq take_bit_eq_mod)

lemma unat_drop_bit_div: "unat (drop_bit n (w :: 'a :: len word)) = unat w div 2 ^ n"
  unfolding unat_drop_bit_eq by (simp add: drop_bit_eq_div)

lemma unat_push_bit_mult:
  "unat (push_bit n (w :: 'a :: len word)) = (unat w * 2 ^ n) mod 2 ^ LENGTH('a)"
  unfolding unsigned_push_bit_eq by (simp add: take_bit_eq_mod push_bit_eq_mult)

lemma bit_small:
  assumes "unat (b :: 'a :: len word) < 2 ^ k" and "bit b n"
  shows "n < k"
proof -
  from assms(1) have "take_bit k (unat b) = unat b"
    by (rule take_bit_nat_eq_self)
  moreover from assms(2) have "bit (unat b) n"
    by (simp add: bit_unsigned_iff)
  ultimately show ?thesis
    using bit_take_bit_iff [of k "unat b" n] by simp
qed

lemma unat_less_iff: "unat (w :: 'a :: len word) < n \<longleftrightarrow> uint w < int n"
  by (simp only: unat_eq_nat_uint nat_less_iff [OF uint_ge_0])

lemma sint_eq_unat_small:
  assumes "unat (w :: int32) < 2 ^ 31"
  shows "sint w = int (unat w)"
proof -
  from assms have "uint w < 2 ^ 31"
    by (simp add: unat_less_iff)
  then show ?thesis
    by (simp only: sint_eq_uint_small uint_nat)
qed

lemma unat_uint16FromTwoBytes:
  "unat (uint16FromTwoBytes hi lo) = unat hi * 256 + unat lo"
proof -
  have "push_bit 8 (ucast hi) OR ucast lo = (push_bit 8 (ucast hi) + ucast lo :: uint16)"
    by (rule disjunctive_add_eq_or [symmetric], rule bit_eqI)
      (auto simp: bit_simps dest: bit_imp_le_length)
  moreover have "unat hi < 256" "unat lo < 256"
    using unsigned_less [of hi] unsigned_less [of lo] by simp_all
  ultimately show ?thesis
    by (simp add: uint16FromTwoBytes_def unat_word_ariths unat_ucast_up unat_push_bit_mult)
qed

subsection \<open>Data bytes\<close>

lemma ascii_byte:
  assumes "(c :: rune) < 0x80"
  shows "(ucast c :: byte) < 0x80" and "(ucast (ucast c :: byte) :: rune) = c"
proof -
  from assms have c: "unat c < 0x80" by (simp add: word_less_nat_alt)
  then show "(ucast c :: byte) < 0x80"
    by (simp add: word_less_nat_alt unat_ucast_down)
  from c show "(ucast (ucast c :: byte) :: rune) = c"
    by (simp add: word_unat_eq_iff unat_ucast_down unat_ucast_up)
qed

lemma inWindow_diff:
  assumes "inWindow off c"
  shows "unat (c - off) < 0x80"
proof -
  from assms have r: "0 \<le> sint c - sint off" "sint c - sint off < 0x80"
    by (simp_all add: inWindow_def)
  have "c - off = word_of_int (sint c) - word_of_int (sint off)"
    by simp
  also have "\<dots> = word_of_int (sint c - sint off)"
    by (simp only: wi_hom_sub)
  finally have "uint (c - off) = (sint c - sint off) mod 2 ^ 32"
    by (simp only: uint_word_of_int) simp
  with r have "uint (c - off) = sint c - sint off"
    by simp
  with r show ?thesis
    by (simp add: unat_less_iff)
qed

lemma dataByte_window:
  assumes "inWindow off c"
  shows "\<not> dataByte off c < 0x80" and "\<not> singleByteTag (dataByte off c)"
    and "(ucast (dataByte off c) :: rune) - 0x80 + off = c"
proof -
  have w: "unat (c - off) < 0x80"
    using assms by (rule inWindow_diff)
  then have b: "unat (dataByte off c) = 0x80 + unat (c - off)"
    by (simp add: dataByte_def unat_word_ariths unat_ucast_down)
  then show "\<not> dataByte off c < 0x80"
    by (simp add: word_less_nat_alt)
  from b have "unat (dataByte off c) \<notin> {1..<0x20}"
    by simp
  then show "\<not> singleByteTag (dataByte off c)"
    by (auto simp: singleByteTag_def single_byte_tags)
  from w b have "(ucast (dataByte off c) :: rune) - 0x80 = c - off"
    by (simp add: word_unat_eq_iff unat_ucast_up unat_sub_if')
  then show "(ucast (dataByte off c) :: rune) - 0x80 + off = c"
    by simp
qed

subsection \<open>Defining a window for a rune\<close>

lemma offsetByte_window:
  assumes "offsetByte c = Some x"
  shows "x \<noteq> 0" and "x < reservedStart" and "inWindow (offsetOf x) c"
    and "x < gapThreshold \<longleftrightarrow> c < 0x3400"
proof -
  consider (lo) "0x80 \<le> unat c" "unat c < 0x3400" "x = ucast (drop_bit 7 c)"
    | (hi) "0xE000 \<le> unat c" "unat c < 0x10000" "x = ucast (drop_bit 7 (c - gapOffset))"
    using assms by (auto simp: offsetByte_def word_less_nat_alt word_le_nat_alt split: if_splits)
  then have "x \<noteq> 0 \<and> x < reservedStart \<and> inWindow (offsetOf x) c \<and>
      (x < gapThreshold \<longleftrightarrow> c < 0x3400)"
  proof cases
    case lo
    from lo(2) have d: "unat c div 128 < 104" by simp
    from lo(1) have d1: "1 \<le> unat c div 128" by simp
    have x: "unat x = unat c div 128"
      using d by (simp add: lo(3) unat_ucast_down unat_drop_bit_div)
    have g: "x < gapThreshold"
      using d by (simp add: word_less_nat_alt x gapThreshold_def)
    have o: "unat (offsetOf x) = unat c div 128 * 128"
      using d g by (simp add: offsetOf_def unat_push_bit_mult unat_ucast_up x)
    have "sint (offsetOf x) = int (unat c div 128 * 128)"
      using d by (simp only: o [symmetric] sint_eq_unat_small) (simp add: sint_eq_unat_small o)
    moreover have "sint c = int (unat c)"
      using lo(2) by (simp add: sint_eq_unat_small)
    moreover have "unat c div 128 * 128 \<le> unat c" "unat c < unat c div 128 * 128 + 128"
      by simp_all
    ultimately have "inWindow (offsetOf x) c"
      unfolding inWindow_def by linarith
    moreover have "x \<noteq> 0"
      using d1 x by (auto simp: word_unat_eq_iff)
    moreover have "x < reservedStart"
      using d by (simp add: word_less_nat_alt x reservedStart_def)
    moreover have "c < 0x3400"
      using lo(2) by (simp add: word_less_nat_alt)
    ultimately show ?thesis using g by simp
  next
    case hi
    have s: "unat (c - gapOffset) = unat c - 0xAC00"
      using hi(1) by (simp add: gapOffset_def unat_sub_if')
    from hi have d: "(unat c - 0xAC00) div 128 < 168" "104 \<le> (unat c - 0xAC00) div 128"
      by simp_all
    have x: "unat x = (unat c - 0xAC00) div 128"
      using d by (simp add: hi(3) unat_ucast_down unat_drop_bit_div s)
    have g: "\<not> x < gapThreshold"
      using d by (simp add: word_less_nat_alt x gapThreshold_def)
    have o: "unat (offsetOf x) = (unat c - 0xAC00) div 128 * 128 + 0xAC00"
      using d g
      by (simp add: offsetOf_def unat_push_bit_mult unat_ucast_up x unat_word_ariths gapOffset_def)
    have "sint (offsetOf x) = int ((unat c - 0xAC00) div 128 * 128 + 0xAC00)"
      using d by (simp add: sint_eq_unat_small o)
    moreover have "sint c = int (unat c)"
      using hi(2) by (simp add: sint_eq_unat_small)
    moreover have "(unat c - 0xAC00) div 128 * 128 + 0xAC00 \<le> unat c"
      "unat c < (unat c - 0xAC00) div 128 * 128 + 0xAC00 + 128"
      using hi(1) by simp_all
    ultimately have "inWindow (offsetOf x) c"
      unfolding inWindow_def by linarith
    moreover have "x \<noteq> 0"
      using d x by (auto simp: word_unat_eq_iff)
    moreover have "x < reservedStart"
      using d by (simp add: word_less_nat_alt x reservedStart_def)
    moreover have "\<not> c < 0x3400"
      using hi(1) by (simp add: word_less_nat_alt)
    ultimately show ?thesis using g by simp
  qed
  then show "x \<noteq> 0" and "x < reservedStart" and "inWindow (offsetOf x) c"
    and "x < gapThreshold \<longleftrightarrow> c < 0x3400"
    by simp_all
qed

lemma defineWindow_offsetOf:
  assumes "x \<noteq> 0" and "x < reservedStart" and "0 \<le> n \<and> n < 8"
    and "length (dynamicOffset d) = 8"
  shows "defineWindow n x d =
     (None, d\<lparr>dynamicOffset := (dynamicOffset d)[nat n := offsetOf x], window := n\<rparr>)"
  using assms by (simp add: defineWindow_def offsetOf_def arr_set_def)

subsection \<open>Code units\<close>

lemma two_bytes_unit:
  "uint16FromTwoBytes (ucast (drop_bit 8 u)) (ucast u) = (u :: uint16)"
proof -
  have "unat u < 0x10000" using unsigned_less [of u] by simp
  then have "unat u div 256 < 256" by simp
  then show ?thesis
    by (simp add: word_unat_eq_iff unat_uint16FromTwoBytes unat_ucast_down unat_drop_bit_div)
qed

lemma two_bytes_rune:
  assumes "(c :: rune) < 0x10000"
  shows "(ucast (uint16FromTwoBytes (ucast (drop_bit 8 c)) (ucast c)) :: rune) = c"
proof -
  from assms have "unat c < 0x10000" by (simp add: word_less_nat_alt)
  then have "unat c div 256 < 256" by simp
  then show ?thesis
    by (simp add: word_unat_eq_iff unat_uint16FromTwoBytes unat_ucast_down unat_ucast_up
        unat_drop_bit_div)
qed

lemma unat_le_iff: "n \<le> unat (w :: 'a :: len word) \<longleftrightarrow> int n \<le> uint w"
  using unat_less_iff [of w n] by (simp only: not_less [symmetric])

lemma IsSurrogate_unat:
  assumes "unat (r :: rune) < 2 ^ 31"
  shows "utf16_IsSurrogate r \<longleftrightarrow> 0xD800 \<le> unat r \<and> unat r < 0xE000"
proof -
  have "sint r = uint r"
    using assms by (simp add: unat_less_iff sint_eq_uint_small)
  then show ?thesis
    by (simp add: utf16_IsSurrogate_def unat_le_iff unat_less_iff)
qed

lemma ValidRune_unat:
  "ValidRune c \<longleftrightarrow> unat c < 0xD800 \<or> (0xDFFF < unat c \<and> unat c \<le> 0x10FFFF)"
  by (simp add: ValidRune_def word_less_nat_alt word_le_nat_alt)

lemma ValidRune_not_sentinel: "ValidRune c \<Longrightarrow> c \<noteq> - 1"
proof
  assume "ValidRune c" and "c = - 1"
  moreover have "(- 1 :: rune) = 0xFFFFFFFF" by simp
  ultimately have "ValidRune 0xFFFFFFFF" by simp
  then show False by (simp add: ValidRune_def)
qed

lemma unicode_tag_range:
  "(UC0 \<le> t \<and> t \<le> UC7) \<or> (UD0 \<le> t \<and> t \<le> UD7) \<or> t = UDX \<or> t = UQU \<longleftrightarrow>
   UC0 \<le> t \<and> t \<le> UDX"
  by (auto simp: unicode_tags word_le_nat_alt word_unat_eq_iff)

text \<open>The two surrogates of a supplementary rune.\<close>

lemma surrogates_of:
  assumes "0x10000 \<le> unat (c :: rune)" and "unat c \<le> 0x10FFFF"
  defines "h \<equiv> (0xD800 + ucast (drop_bit 10 (c - 0x10000)) :: uint16)"
    and "l \<equiv> (0xDC00 + ucast ((c - 0x10000) AND 0x3FF) :: uint16)"
  shows "unat h = 0xD800 + (unat c - 0x10000) div 1024"
    and "unat l = 0xDC00 + (unat c - 0x10000) mod 1024"
    and "utf16_DecodeRune (ucast h) (ucast l) = c"
proof -
  have s: "unat (c - 0x10000) = unat c - 0x10000"
    using assms(1) by (simp add: unat_sub_if')
  from assms(1,2) have d: "(unat c - 0x10000) div 1024 < 1024" by simp
  have m: "(unat c - 0x10000) mod 1024 < 1024" by simp
  show h: "unat h = 0xD800 + (unat c - 0x10000) div 1024"
    using d by (simp add: h_def unat_word_ariths unat_ucast_down unat_drop_bit_div s)
  have "(0x3FF :: rune) = mask 10" by (simp add: mask_eq_exp_minus_1)
  then have a: "unat ((c - 0x10000) AND 0x3FF) = (unat c - 0x10000) mod 1024"
    by (simp only: unsigned_and_eq unsigned_take_bit_eq s flip: take_bit_eq_mask)
      (simp add: take_bit_eq_mod)
  show l: "unat l = 0xDC00 + (unat c - 0x10000) mod 1024"
    using m by (simp add: l_def unat_word_ariths unat_ucast_down a)
  have h32: "unat (ucast h :: rune) = 0xD800 + (unat c - 0x10000) div 1024"
    by (simp add: unat_ucast_up h)
  have l32: "unat (ucast l :: rune) = 0xDC00 + (unat c - 0x10000) mod 1024"
    by (simp add: unat_ucast_up l)
  have sh: "sint (ucast h :: rune) = int (0xD800 + (unat c - 0x10000) div 1024)"
    using d by (simp add: sint_eq_unat_small h32)
  have sl: "sint (ucast l :: rune) = int (0xDC00 + (unat c - 0x10000) mod 1024)"
    using m by (simp add: sint_eq_unat_small l32)
  have hd: "unat ((ucast h :: rune) - 0xD800) = (unat c - 0x10000) div 1024"
    by (simp add: unat_sub_if' h32)
  have ld: "unat ((ucast l :: rune) - 0xDC00) = (unat c - 0x10000) mod 1024"
    by (simp add: unat_sub_if' l32)
  define A where "A = push_bit 10 ((ucast h :: rune) - 0xD800)"
  define B where "B = (ucast l :: rune) - 0xDC00"
  have uB: "unat B = (unat c - 0x10000) mod 1024"
    by (simp only: B_def ld)
  have uA: "unat A = (unat c - 0x10000) div 1024 * 1024"
    using d by (simp add: A_def unat_push_bit_mult hd)
  have low: "n < 10" if "bit B n" for n
    using bit_small [of B 10 n] that m by (simp add: uB)
  have "A OR B = A + B"
    unfolding A_def
    by (rule disjunctive_add_eq_or [symmetric], rule bit_eqI)
      (auto simp: bit_simps dest: low)
  moreover have "unat (A + B) = unat A + unat B"
    using d m by (subst unat_add_lem [THEN iffD1]) (simp_all add: uA uB)
  moreover have "unat (A + B + 0x10000) = unat (A + B) + 0x10000"
    using d m calculation(2) by (subst unat_add_lem [THEN iffD1]) (simp_all add: uA uB)
  ultimately have "unat ((A OR B) + 0x10000) = unat c"
    using assms(1) by (simp add: uA uB)
  then have "(A OR B) + 0x10000 = c"
    by (simp only: word_unat_eq_iff)
  then have "(push_bit 10 ((ucast h :: rune) - 0xD800) OR ((ucast l :: rune) - 0xDC00))
      + 0x10000 = c"
    by (simp only: A_def B_def)
  moreover have "0xD800 \<le> sint (ucast h :: rune) \<and> sint (ucast h :: rune) < 0xDC00 \<and>
      0xDC00 \<le> sint (ucast l :: rune) \<and> sint (ucast l :: rune) < 0xE000"
    using d m by (simp add: sh sl)
  ultimately show "utf16_DecodeRune (ucast h) (ucast l) = c"
    by (simp add: utf16_DecodeRune_def)
qed

subsection \<open>The decoder on the encoder's output\<close>

lemma readRune_Inr:
  assumes "(if unicodeMode d then expandUnicode d else expandSingleByte d) = (Inr r, d')"
  shows "readRune d = (if r = - 1 then readRune d' else (Inr r, d'))"
  using assms by (subst readRune.simps) simp

lemma tag_index:
  assumes "0 \<le> i \<and> i < (8 :: int)"
  shows "SC0 + word_of_int i \<in> set [SC0, SC1, SC2, SC3, SC4, SC5, SC6, SC7]"
    and "SC0 + word_of_int i \<notin> set [SQ0, SQ1, SQ2, SQ3, SQ4, SQ5, SQ6, SQ7]"
    and "SC0 + word_of_int i \<noteq> SDX"
    and "SC0 + word_of_int i \<notin> set [SD0, SD1, SD2, SD3, SD4, SD5, SD6, SD7]"
    and "uint (SC0 + word_of_int i) - uint SC0 = i"
    and "SD0 + word_of_int i \<in> set [SD0, SD1, SD2, SD3, SD4, SD5, SD6, SD7]"
    and "SD0 + word_of_int i \<notin> set [SQ0, SQ1, SQ2, SQ3, SQ4, SQ5, SQ6, SQ7]"
    and "SD0 + word_of_int i \<noteq> SDX"
    and "uint (SD0 + word_of_int i) - uint SD0 = i"
    and "UC0 \<le> UC0 + word_of_int i \<and> UC0 + word_of_int i \<le> UC7"
    and "uint (UC0 + word_of_int i) - uint UC0 = i"
proof -
  from assms have "i \<in> {0, 1, 2, 3, 4, 5, 6, 7}"
    by auto
  then show "SC0 + word_of_int i \<in> set [SC0, SC1, SC2, SC3, SC4, SC5, SC6, SC7]"
    and "SC0 + word_of_int i \<notin> set [SQ0, SQ1, SQ2, SQ3, SQ4, SQ5, SQ6, SQ7]"
    and "SC0 + word_of_int i \<noteq> SDX"
    and "SC0 + word_of_int i \<notin> set [SD0, SD1, SD2, SD3, SD4, SD5, SD6, SD7]"
    and "uint (SC0 + word_of_int i) - uint SC0 = i"
    and "SD0 + word_of_int i \<in> set [SD0, SD1, SD2, SD3, SD4, SD5, SD6, SD7]"
    and "SD0 + word_of_int i \<notin> set [SQ0, SQ1, SQ2, SQ3, SQ4, SQ5, SQ6, SQ7]"
    and "SD0 + word_of_int i \<noteq> SDX"
    and "uint (SD0 + word_of_int i) - uint SD0 = i"
    and "UC0 \<le> UC0 + word_of_int i \<and> UC0 + word_of_int i \<le> UC7"
    and "uint (UC0 + word_of_int i) - uint UC0 = i"
    by (auto simp: single_byte_tags unicode_tags)
qed

lemma decode_plain:
  assumes "sync e (b # rest) d" and "\<not> singleByteTag b" and "wellformedE e"
  shows "\<exists>d'. expandSingleByte d =
           (Inr (if b < 0x80 then ucast b
                 else ucast b - 0x80 + dynamicOffset e ! nat (window e)), d') \<and>
         sync e rest d'"
proof -
  from assms(1) have bs: "brd d = b # rest" by (simp add: sync_def)
  have "outputChar b 0 (window d) d =
      Inr (if b < 0x80 then ucast b else ucast b - 0x80 + dynamicOffset e ! nat (window e))"
    using assms(1,3) by (simp add: outputChar_def arr_get_def staticOffset_def sync_def
        wellformedE_def)
  with body_plain [OF assms(2) bs] assms(1) show ?thesis
    by (simp add: expandSingleByte_Return sync_def)
qed

lemma decode_quote0:
  assumes "sync e (SQ0 # b # rest) d" and "b < 0x80"
  shows "\<exists>d'. expandSingleByte d = (Inr (ucast b), d') \<and> sync e rest d'"
proof -
  from assms(1) have bs: "brd d = SQ0 # b # rest" by (simp add: sync_def)
  have "outputChar b (uint SQ0 - uint SQ0) (uint SQ0 - uint SQ0) d = Inr (ucast b)"
    using assms(2) by (simp add: outputChar_def arr_get_def staticOffset_def)
  with body_quote [of SQ0 d b rest] bs assms(1) show ?thesis
    by (simp add: expandSingleByte_Return sync_def)
qed

lemma decode_change:
  assumes "sync e ((SC0 + word_of_int i) # rest) d" and "0 \<le> i \<and> i < 8"
  shows "\<exists>d'. expandSingleByte d = expandSingleByte d' \<and> sync (e\<lparr>window := i\<rparr>) rest d'"
proof -
  from assms(1) have bs: "brd d = (SC0 + word_of_int i) # rest" by (simp add: sync_def)
  have "expandSingleByte_body d =
      (Continue, d\<lparr>brd := rest, bytesRead := bytesRead d + 1, window := i\<rparr>)"
    using tag_index(1-5) [OF assms(2)]
    by (simp add: expandSingleByte_body_def readByte_Cons [OF bs] del: set_simps)
  with assms(1) show ?thesis
    by (auto simp: sync_def dest!: expandSingleByte_Continue)
qed

lemma decode_define:
  assumes "sync e ((SD0 + word_of_int n) # x # rest) d" and "0 \<le> n \<and> n < 8"
    and "x \<noteq> 0" and "x < reservedStart" and "wellformedE e"
  shows "\<exists>d'. expandSingleByte d = expandSingleByte d' \<and>
     sync (e\<lparr>dynamicOffset := (dynamicOffset e)[nat n := offsetOf x], window := n\<rparr>) rest d'"
proof -
  from assms(1) have bs: "brd d = (SD0 + word_of_int n) # x # rest" by (simp add: sync_def)
  let ?d1 = "d\<lparr>brd := x # rest, bytesRead := bytesRead d + 1\<rparr>"
  let ?d2 = "?d1\<lparr>brd := rest, bytesRead := bytesRead ?d1 + 1\<rparr>"
  have rb1: "readByte d = (Inr (SD0 + word_of_int n), ?d1)"
    using bs by (rule readByte_Cons)
  have rb2: "readByte ?d1 = (Inr x, ?d2)"
    by (rule readByte_Cons) simp
  have len: "length (dynamicOffset d) = 8"
    using assms(1,5) by (simp add: sync_def wellformedE_def)
  have "expandSingleByte_body d =
      (Continue, ?d2\<lparr>dynamicOffset := (dynamicOffset ?d2)[nat n := offsetOf x], window := n\<rparr>)"
    using tag_index(6-9) [OF assms(2)]
    unfolding expandSingleByte_body_def rb1
    by (simp add: rb2 defineWindow_offsetOf [OF assms(3,4,2)] len del: set_simps)
  with assms(1) show ?thesis
    by (auto simp: sync_def dest!: expandSingleByte_Continue)
qed

lemma decode_SCU:
  assumes "sync e (SCU # rest) d"
  shows "\<exists>d'. expandSingleByte d = (Inr (- 1), d') \<and> sync (e\<lparr>inUnicodeMode := True\<rparr>) rest d'"
proof -
  from assms(1) have bs: "brd d = SCU # rest" by (simp add: sync_def)
  have "expandSingleByte_body d =
      (Return (Inr (- 1)), d\<lparr>brd := rest, bytesRead := bytesRead d + 1, unicodeMode := True\<rparr>)"
    by (simp add: expandSingleByte_body_def readByte_Cons [OF bs] single_byte_tags)
  with assms(1) show ?thesis
    by (auto simp: sync_def dest!: expandSingleByte_Return)
qed

lemma decode_UC:
  assumes "sync e ((UC0 + word_of_int i) # rest) d" and "0 \<le> i \<and> i < 8"
  shows "\<exists>d'. expandUnicode d = (Inr (- 1), d') \<and>
     sync (e\<lparr>window := i, inUnicodeMode := False\<rparr>) rest d'"
proof -
  from assms(1) have bs: "brd d = (UC0 + word_of_int i) # rest" by (simp add: sync_def)
  have "expandUnicode d =
      (Inr (- 1), d\<lparr>brd := rest, bytesRead := bytesRead d + 1, window := i,
         unicodeMode := False\<rparr>)"
    using tag_index(10,11) [OF assms(2)]
    by (simp add: expandUnicode_def readByte_Cons [OF bs])
  with assms(1) show ?thesis
    by (simp add: sync_def)
qed

lemma decode_units:
  assumes "sync e (units c @ rest) d" and "ValidRune c"
  shows "\<exists>d'. expandUnicode d = (Inr c, d') \<and> sync e rest d'"
proof (cases "c < 0x10000")
  case True
  define hi where "hi = (ucast (drop_bit 8 c) :: byte)"
  define lo where "lo = (ucast c :: byte)"
  have unit: "(ucast (uint16FromTwoBytes hi lo) :: rune) = c"
    unfolding hi_def lo_def using True by (rule two_bytes_rune)
  from True have "unat c < 2 ^ 31"
    by (simp add: word_less_nat_alt)
  with assms(2) True have ns: "\<not> utf16_IsSurrogate c"
    by (auto simp: IsSurrogate_unat ValidRune_unat)
  show ?thesis
  proof (cases "UC0 \<le> hi \<and> hi \<le> UDX")
    case tag: True
    with True have u: "units c = [UQU, hi, lo]"
      by (simp add: units_def hi_def lo_def Let_def)
    with assms(1) have bs: "brd d = UQU # hi # lo # rest"
      by (simp add: sync_def)
    let ?d1 = "d\<lparr>brd := hi # lo # rest, bytesRead := bytesRead d + 1\<rparr>"
    have rb: "readByte d = (Inr UQU, ?d1)"
      using bs by (rule readByte_Cons)
    have ru: "readUint16 ?d1 =
        (Inr (uint16FromTwoBytes hi lo), ?d1\<lparr>brd := rest, bytesRead := bytesRead ?d1 + 2\<rparr>)"
      by (rule readUint16_two) simp
    have "expandUnicode d = (Inr c, ?d1\<lparr>brd := rest, bytesRead := bytesRead ?d1 + 2\<rparr>)"
      unfolding expandUnicode_def rb
      by (simp add: ru unit) (simp add: unicode_tags)
    with assms(1) show ?thesis
      by (simp add: sync_def)
  next
    case notag: False
    with True have u: "units c = [hi, lo]"
      by (simp add: units_def hi_def lo_def Let_def)
    with assms(1) have bs: "brd d = hi # lo # rest"
      by (simp add: sync_def)
    let ?d1 = "d\<lparr>brd := lo # rest, bytesRead := bytesRead d + 1\<rparr>"
    let ?d2 = "?d1\<lparr>brd := rest, bytesRead := bytesRead ?d1 + 1\<rparr>"
    have rb: "readByte d = (Inr hi, ?d1)"
      using bs by (rule readByte_Cons)
    have rb2: "readByte ?d1 = (Inr lo, ?d2)"
      by (rule readByte_Cons) simp
    from notag unicode_tag_range [of hi]
    have t: "\<not> (UC0 \<le> hi \<and> hi \<le> UC7)" "\<not> (UD0 \<le> hi \<and> hi \<le> UD7)" "hi \<noteq> UDX" "hi \<noteq> UQU"
      by blast+
    have "expandUnicode d = (Inr c, ?d2)"
      unfolding expandUnicode_def rb
      using t ns by (auto simp: rb2 unit Let_def)
    with assms(1) show ?thesis
      by (simp add: sync_def)
  qed
next
  case False
  with assms(2) have c: "0x10000 \<le> unat c" "unat c \<le> 0x10FFFF"
    by (auto simp: ValidRune_unat word_less_nat_alt)
  define h where "h = (0xD800 + ucast (drop_bit 10 (c - 0x10000)) :: uint16)"
  define l where "l = (0xDC00 + ucast ((c - 0x10000) AND 0x3FF) :: uint16)"
  note s = surrogates_of [OF c, folded h_def l_def]
  from c have d: "(unat c - 0x10000) div 1024 < 1024" by simp
  have m: "(unat c - 0x10000) mod 1024 < 1024" by simp
  define b0 where "b0 = (ucast (drop_bit 8 h) :: byte)"
  define b1 where "b1 = (ucast h :: byte)"
  define b2 where "b2 = (ucast (drop_bit 8 l) :: byte)"
  define b3 where "b3 = (ucast l :: byte)"
  from False have u: "units c = [b0, b1, b2, b3]"
    by (simp add: units_def Let_def h_def l_def b0_def b1_def b2_def b3_def)
  with assms(1) have bs: "brd d = b0 # b1 # b2 # b3 # rest"
    by (simp add: sync_def)
  have uh: "uint16FromTwoBytes b0 b1 = h"
    unfolding b0_def b1_def by (rule two_bytes_unit)
  have ul: "uint16FromTwoBytes b2 b3 = l"
    unfolding b2_def b3_def by (rule two_bytes_unit)
  have "unat b0 = unat h div 256"
    using d by (simp add: b0_def unat_ucast_down unat_drop_bit_div s(1))
  with d have b0: "0xD8 \<le> unat b0" "unat b0 < 0xDC"
    by (simp_all add: s(1))
  then have t: "\<not> (UC0 \<le> b0 \<and> b0 \<le> UC7)" "\<not> (UD0 \<le> b0 \<and> b0 \<le> UD7)"
    "b0 \<noteq> UDX" "b0 \<noteq> UQU"
    by (auto simp: unicode_tags word_le_nat_alt)
  have sh: "utf16_IsSurrogate (ucast h)"
    using d by (simp add: IsSurrogate_unat unat_ucast_up s(1))
  have sl: "utf16_IsSurrogate (ucast l)"
    using m by (simp add: IsSurrogate_unat unat_ucast_up s(2))
  let ?d1 = "d\<lparr>brd := b1 # b2 # b3 # rest, bytesRead := bytesRead d + 1\<rparr>"
  let ?d2 = "?d1\<lparr>brd := b2 # b3 # rest, bytesRead := bytesRead ?d1 + 1\<rparr>"
  let ?d4 = "?d2\<lparr>brd := rest, bytesRead := bytesRead ?d2 + 2\<rparr>"
  have rb: "readByte d = (Inr b0, ?d1)"
    using bs by (rule readByte_Cons)
  have rb2: "readByte ?d1 = (Inr b1, ?d2)"
    by (rule readByte_Cons) simp
  have ru: "readUint16 ?d2 = (Inr (uint16FromTwoBytes b2 b3), ?d4)"
    by (rule readUint16_two) simp
  have "expandUnicode d = (Inr c, ?d4)"
    unfolding expandUnicode_def rb
    using t sh sl by (auto simp: readByte_upd readUint16_upd uh ul Let_def s(3))
  with assms(1) show ?thesis
    by (simp add: sync_def)
qed

subsection \<open>One rune\<close>

lemma findWindow_Some:
  assumes "findWindow e c = Some i" and "wellformedE e"
  shows "0 \<le> i \<and> i < 8" and "inWindow (dynamicOffset e ! nat i) c"
proof -
  have "0 \<le> i \<and> i < 8 \<and> inWindow (dynamicOffset e ! nat i) c"
  proof (cases "inWindow (dynamicOffset e ! nat (window e)) c")
    case True
    with assms show ?thesis
      by (simp add: findWindow_def wellformedE_def)
  next
    case False
    with assms(1) obtain j where
      "find (\<lambda>i. inWindow (dynamicOffset e ! i) c) [0..<8] = Some j" and "i = int j"
      by (auto simp: findWindow_def)
    then show ?thesis
      by (auto simp: find_Some_iff)
  qed
  then show "0 \<le> i \<and> i < 8" and "inWindow (dynamicOffset e ! nat i) c"
    by simp_all
qed

lemma readRune_single:
  assumes "\<not> unicodeMode d" and "expandSingleByte d = (Inr c, d')" and "ValidRune c"
  shows "readRune d = (Inr c, d')"
  using assms readRune_Inr [of d c d'] by (simp add: ValidRune_not_sentinel)

lemma decode_data:
  assumes "sync e (dataByte (dynamicOffset e ! nat (window e)) c # rest) d"
    and "inWindow (dynamicOffset e ! nat (window e)) c" and "wellformedE e"
  shows "\<exists>d'. expandSingleByte d = (Inr c, d') \<and> sync e rest d'"
  using decode_plain [OF assms(1) dataByte_window(2) [OF assms(2)] assms(3)]
    dataByte_window(1,3) [OF assms(2)]
  by simp

lemma encodeSingleByte_decodes:
  assumes "ValidRune c" and "wellformedE e" and "\<not> inUnicodeMode e"
    and "encodeSingleByte e c = (bs, e')" and "sync e (bs @ rest) d"
  shows "\<exists>d'. readRune d = (Inr c, d') \<and> sync e' rest d' \<and> wellformedE e'"
proof -
  from assms(3,5) have sb: "\<not> unicodeMode d" by (simp add: sync_def)
  show ?thesis
  proof (cases "c < 0x80")
    case True
    note a = ascii_byte [OF True]
    show ?thesis
    proof (cases "singleByteTag (ucast c)")
      case tag: True
      with True assms(4) have "bs = [SQ0, ucast c]" "e' = e"
        by (simp_all add: encodeSingleByte_def)
      with assms(5) decode_quote0 [of e "ucast c" rest d] a
      obtain d' where "expandSingleByte d = (Inr c, d')" "sync e rest d'"
        by auto
      with sb assms(1,2) \<open>e' = e\<close> show ?thesis
        by (auto simp: readRune_single)
    next
      case plain: False
      with True assms(4) have "bs = [ucast c]" "e' = e"
        by (simp_all add: encodeSingleByte_def)
      with assms(5) decode_plain [of e "ucast c" rest d] plain assms(2) a
      obtain d' where "expandSingleByte d = (Inr c, d')" "sync e rest d'"
        by auto
      with sb assms(1,2) \<open>e' = e\<close> show ?thesis
        by (auto simp: readRune_single)
    qed
  next
    case False
    show ?thesis
    proof (cases "findWindow e c")
      case (Some i)
      note fw = findWindow_Some [OF Some assms(2)]
      let ?e1 = "e\<lparr>window := i\<rparr>"
      have wf1: "wellformedE ?e1"
        using assms(2) fw(1) by (simp add: wellformedE_def)
      from False Some assms(4) have e': "e' = ?e1"
        and bs: "bs = (if i = window e then [] else [SC0 + word_of_int i]) @
                  [dataByte (dynamicOffset e ! nat i) c]"
        by (simp_all add: encodeSingleByte_def)
      have "\<exists>d1. expandSingleByte d = expandSingleByte d1 \<and>
          sync ?e1 (dataByte (dynamicOffset ?e1 ! nat (window ?e1)) c # rest) d1"
      proof (cases "i = window e")
        case True
        with bs assms(5) show ?thesis
          by (auto simp: sync_def)
      next
        case False
        with bs assms(5) decode_change [of e i _ d, OF _ fw(1)] show ?thesis
          by simp
      qed
      then obtain d1 where d1: "expandSingleByte d = expandSingleByte d1"
        "sync ?e1 (dataByte (dynamicOffset ?e1 ! nat (window ?e1)) c # rest) d1"
        by blast
      from decode_data [OF d1(2) _ wf1] fw(2)
      obtain d' where "expandSingleByte d1 = (Inr c, d')" "sync ?e1 rest d'"
        by auto
      with d1(1) sb assms(1) wf1 e' show ?thesis
        by (auto simp: readRune_single)
    next
      case None
      show ?thesis
      proof (cases "offsetByte c")
        case (Some x)
        note ob = offsetByte_window [OF Some]
        define n where "n = (window e + 1) mod 8"
        have n: "0 \<le> n \<and> n < 8" by (simp add: n_def)
        let ?e1 = "e\<lparr>dynamicOffset := (dynamicOffset e)[nat n := offsetOf x], window := n\<rparr>"
        have wf1: "wellformedE ?e1"
          using assms(2) n by (simp add: wellformedE_def)
        have "nat n < 8" using n by arith
        then have off: "dynamicOffset ?e1 ! nat (window ?e1) = offsetOf x"
          using assms(2) by (simp add: wellformedE_def)
        from False None Some assms(4) have e': "e' = ?e1"
          and bs: "bs = [SD0 + word_of_int n, x, dataByte (offsetOf x) c]"
          by (simp_all add: encodeSingleByte_def Let_def n_def)
        from bs assms(5) decode_define [of e n x _ d, OF _ n ob(1,2) assms(2)]
        obtain d1 where d1: "expandSingleByte d = expandSingleByte d1"
          "sync ?e1 (dataByte (offsetOf x) c # rest) d1"
          by auto
        from decode_data [of ?e1 c rest d1] d1(2) ob(3) wf1 off
        obtain d' where "expandSingleByte d1 = (Inr c, d')" "sync ?e1 rest d'"
          by auto
        with d1(1) sb assms(1) wf1 e' show ?thesis
          by (auto simp: readRune_single)
      next
        case none: None
        let ?e1 = "e\<lparr>inUnicodeMode := True\<rparr>"
        have wf1: "wellformedE ?e1"
          using assms(2) by (simp add: wellformedE_def)
        from False None none assms(4) have e': "e' = ?e1" and bs: "bs = SCU # units c"
          by (simp_all add: encodeSingleByte_def)
        from bs assms(5) decode_SCU [of e _ d]
        obtain d1 where d1: "expandSingleByte d = (Inr (- 1), d1)"
          "sync ?e1 (units c @ rest) d1"
          by auto
        from decode_units [OF d1(2) assms(1)]
        obtain d' where d': "expandUnicode d1 = (Inr c, d')" "sync ?e1 rest d'"
          by auto
        from d1(2) have u1: "unicodeMode d1" by (simp add: sync_def)
        from sb d1(1) have "readRune d = readRune d1"
          using readRune_Inr [of d "- 1" d1] by simp
        also from u1 d'(1) assms(1) have "\<dots> = (Inr c, d')"
          using readRune_Inr [of d1 c d'] by (simp add: ValidRune_not_sentinel)
        finally show ?thesis
          using d'(2) wf1 e' by auto
      qed
    qed
  qed
qed

lemma encodeRune_decodes:
  assumes "ValidRune c" and "wellformedE e"
    and "encodeRune e c = (bs, e')" and "sync e (bs @ rest) d"
  shows "\<exists>d'. readRune d = (Inr c, d') \<and> sync e' rest d' \<and> wellformedE e'"
proof (cases "inUnicodeMode e")
  case False
  with assms show ?thesis
    by (auto simp: encodeRune_def intro: encodeSingleByte_decodes)
next
  case True
  with assms(4) have um: "unicodeMode d" by (simp add: sync_def)
  show ?thesis
  proof (cases "c < 0x80 \<or> findWindow e c \<noteq> None \<or> offsetByte c \<noteq> None")
    case switch: True
    let ?e1 = "e\<lparr>inUnicodeMode := False\<rparr>"
    obtain bs1 e1' where es: "encodeSingleByte ?e1 c = (bs1, e1')"
      by (cases "encodeSingleByte ?e1 c")
    with True switch assms(3) have bs: "bs = (UC0 + word_of_int (window e)) # bs1" and e': "e' = e1'"
      by (simp_all add: encodeRune_def)
    have w: "0 \<le> window e \<and> window e < 8"
      using assms(2) by (simp add: wellformedE_def)
    have wf1: "wellformedE ?e1"
      using assms(2) by (simp add: wellformedE_def)
    from bs assms(4) decode_UC [of e "window e" _ d, OF _ w]
    obtain d1 where d1: "expandUnicode d = (Inr (- 1), d1)"
      "sync (e\<lparr>window := window e, inUnicodeMode := False\<rparr>) (bs1 @ rest) d1"
      by auto
    from d1(2) have s1: "sync ?e1 (bs1 @ rest) d1"
      by (simp add: sync_def)
    from um d1(1) have "readRune d = readRune d1"
      using readRune_Inr [of d "- 1" d1] by simp
    with encodeSingleByte_decodes [OF assms(1) wf1 _ es s1] e' show ?thesis
      by simp
  next
    case stay: False
    with True assms(3) have "bs = units c" "e' = e"
      by (simp_all add: encodeRune_def)
    with assms(4) decode_units [of e c rest d] assms(1)
    obtain d' where d': "expandUnicode d = (Inr c, d')" "sync e rest d'"
      by auto
    from um d'(1) assms(1) have "readRune d = (Inr c, d')"
      using readRune_Inr [of d c d'] by (simp add: ValidRune_not_sentinel)
    with d'(2) assms(2) \<open>e' = e\<close> show ?thesis
      by auto
  qed
qed

subsection \<open>A sequence of runes\<close>

lemma encodeSingleByte_wellformed:
  assumes "wellformedE e" and "encodeSingleByte e c = (bs, e')"
  shows "wellformedE e'"
proof (cases "findWindow e c")
  case None
  with assms show ?thesis
    by (auto simp: encodeSingleByte_def wellformedE_def Let_def split: if_splits option.splits)
next
  case (Some i)
  with assms findWindow_Some(1) [OF Some assms(1)] show ?thesis
    by (auto simp: encodeSingleByte_def wellformedE_def split: if_splits)
qed

lemma encodeRune_wellformed:
  assumes "wellformedE e" and "encodeRune e c = (bs, e')"
  shows "wellformedE e'"
proof -
  have "wellformedE (e\<lparr>inUnicodeMode := False\<rparr>)"
    using assms(1) by (simp add: wellformedE_def)
  with assms show ?thesis
    by (auto simp: encodeRune_def split: if_splits prod.splits
        dest: encodeSingleByte_wellformed)
qed

lemma ReadString_loop_eof: "brd d = [] \<Longrightarrow> ReadString_loop sb d = (Inr sb, d)"
  using readRune_eof [of d] by (simp add: ReadString_loop_Inl)

lemma encodeRunes_decodes:
  assumes "list_all ValidRune s" and "wellformedE e"
  shows "\<exists>bs. encodeRunes e s = Inr bs \<and>
    (\<forall>d sb. sync e bs d \<longrightarrow> fst (ReadString_loop sb d) = Inr (foldl WriteRune sb s))"
  using assms
proof (induction s arbitrary: e)
  case Nil
  then show ?case
    by (simp add: sync_def ReadString_loop_eof)
next
  case (Cons c cs)
  from Cons.prems(1) have v: "ValidRune c" and vs: "list_all ValidRune cs"
    by simp_all
  obtain bs1 e1 where e1: "encodeRune e c = (bs1, e1)"
    by (cases "encodeRune e c")
  have wf1: "wellformedE e1"
    using Cons.prems(2) e1 by (rule encodeRune_wellformed)
  from Cons.IH [OF vs wf1] obtain bs2 where
    bs2: "encodeRunes e1 cs = Inr bs2"
    and dec: "\<And>d sb. sync e1 bs2 d \<Longrightarrow>
      fst (ReadString_loop sb d) = Inr (foldl WriteRune sb cs)"
    by blast
  have enc: "encodeRunes e (c # cs) = Inr (bs1 @ bs2)"
    using v e1 bs2 by simp
  have "fst (ReadString_loop sb d) = Inr (foldl WriteRune sb (c # cs))"
    if "sync e (bs1 @ bs2) d" for d sb
  proof -
    from encodeRune_decodes [OF v Cons.prems(2) e1 that]
    obtain d' where d': "readRune d = (Inr c, d')" "sync e1 bs2 d'"
      by blast
    from d'(1) have "ReadString_loop sb d = ReadString_loop (WriteRune sb c) d'"
      by (rule ReadString_loop_Inr)
    with dec [OF d'(2), of "WriteRune sb c"] show ?thesis
      by simp
  qed
  with enc show ?case
    by blast
qed

lemma sync_new: "sync NewEncoder bs (NewDecoder bs)"
  by (simp add: sync_def NewEncoder_def NewDecoder_def init_def)

lemma wellformedE_new: "wellformedE NewEncoder"
  by (simp add: wellformedE_def NewEncoder_def initialDynamicOffset_def)

text \<open>
  C1. For every sequence \<open>s\<close> of scalar values, the encoder returns a byte stream and no
  error, and \<open>Decode\<close> of that stream returns, with no error, the string that holds exactly
  the runes \<open>s\<close>. The decoder is the one of the source; the encoder is the one modelled
  from the spec above.
\<close>

theorem round_trip:
  assumes "list_all ValidRune s"
  shows "\<exists>bs. Encode s = Inr bs \<and> Decode bs = Inr (stringOf s)"
proof -
  from encodeRunes_decodes [OF assms wellformedE_new] obtain bs where
    "encodeRunes NewEncoder s = Inr bs"
    and "\<And>d sb. sync NewEncoder bs d \<Longrightarrow>
      fst (ReadString_loop sb d) = Inr (foldl WriteRune sb s)"
    by blast
  with sync_new [of bs] show ?thesis
    by (auto simp: Encode_def Decode_def ReadString_def stringOf_def)
qed

theorem round_trip_witness:
  "list_all ValidRune [0x48, 0x69, 0x41F, 0x440, 0x4E2D, 0x1F600, 0x0A] \<and>
   Encode [0x48, 0x69, 0x41F, 0x440, 0x4E2D, 0x1F600, 0x0A] =
     Inr [0x48, 0x69, 0x12, 0x9F, 0xC0, 0x0F, 0x4E, 0x2D, 0xD8, 0x3D, 0xDE, 0x00, 0xE2, 0x0A] \<and>
   Decode [0x48, 0x69, 0x12, 0x9F, 0xC0, 0x0F, 0x4E, 0x2D, 0xD8, 0x3D, 0xDE, 0x00, 0xE2, 0x0A] =
     Inr [0x48, 0x69, 0xD0, 0x9F, 0xD1, 0x80, 0xE4, 0xB8, 0xAD, 0xF0, 0x9F, 0x98, 0x80, 0x0A]"
proof -
  have v: "list_all ValidRune [0x48, 0x69, 0x41F, 0x440, 0x4E2D, 0x1F600, 0x0A]"
    by code_simp
  have e: "Encode [0x48, 0x69, 0x41F, 0x440, 0x4E2D, 0x1F600, 0x0A] =
     Inr [0x48, 0x69, 0x12, 0x9F, 0xC0, 0x0F, 0x4E, 0x2D, 0xD8, 0x3D, 0xDE, 0x00, 0xE2, 0x0A]"
    by code_simp
  have s: "stringOf [0x48, 0x69, 0x41F, 0x440, 0x4E2D, 0x1F600, 0x0A] =
     [0x48, 0x69, 0xD0, 0x9F, 0xD1, 0x80, 0xE4, 0xB8, 0xAD, 0xF0, 0x9F, 0x98, 0x80, 0x0A]"
    by code_simp
  from round_trip [OF v] e s v show ?thesis
    by auto
qed

end
